theory Spec2Isabelle
  imports Main "HOL-Library.Multiset"
begin

section \<open>JavaScript strings\<close>

text \<open>
  Strings are modelled as lists of 8-bit characters, read as the code units
  U+0000 to U+00FF. On that range ECMAScript's white space and line terminators
  (what \<^verbatim>\<open>\s\<close> matches and \<^verbatim>\<open>trim()\<close> strips) are TAB, LF, VT, FF, CR, SPACE
  and NBSP.
\<close>

definition isWhiteSpace :: "char \<Rightarrow> bool" where
  "isWhiteSpace c \<longleftrightarrow>
     c \<in> {CHR 0x09, CHR 0x0A, CHR 0x0B, CHR 0x0C, CHR 0x0D, CHR 0x20, CHR 0xA0}"

definition trim :: "string \<Rightarrow> string" where
  "trim s = rev (dropWhile isWhiteSpace (rev (dropWhile isWhiteSpace s)))"

text \<open>
  \<^verbatim>\<open>toLowerCase()\<close> on the same range: A-Z and the Latin-1 capitals U+00C0 to U+00DE
  (without the multiplication sign U+00D7) move up by 32.
\<close>

definition lowerChar :: "char \<Rightarrow> char" where
  "lowerChar c =
     (let n = (of_char c :: nat)
      in if (65 \<le> n \<and> n \<le> 90) \<or> (192 \<le> n \<and> n \<le> 222 \<and> n \<noteq> 215)
         then char_of (n + 32) else c)"

definition toLowerCase :: "string \<Rightarrow> string" where
  "toLowerCase s = map lowerChar s"

text \<open>\<^verbatim>\<open>s.includes(t)\<close>: \<open>t\<close> occurs in \<open>s\<close> as a contiguous run.\<close>

fun js_includes :: "string \<Rightarrow> string \<Rightarrow> bool" where
  "js_includes [] t \<longleftrightarrow> t = []"
| "js_includes (c # s) t \<longleftrightarrow> take (length t) (c # s) = t \<or> js_includes s t"

text \<open>\<^verbatim>\<open>xs.join(sep)\<close> on an array of strings.\<close>

fun join :: "string \<Rightarrow> string list \<Rightarrow> string" where
  "join sep [] = []"
| "join sep [x] = x"
| "join sep (x # y # ys) = x @ sep @ join sep (y # ys)"

text \<open>A number in a template literal: the decimal digits of a natural number.\<close>

definition digit :: "nat \<Rightarrow> char" where
  "digit d = char_of (48 + d)"

fun showNat :: "nat \<Rightarrow> string" where
  "showNat n = (if n < 10 then [digit n] else showNat (n div 10) @ [digit (n mod 10)])"

declare showNat.simps [simp del]

text \<open>
  The regular expression \<^verbatim>\<open>/^[^\s@]+@[^\s@]+\.[^\s@]+$/\<close> (excelController.ts line 34,
  Lead.ts line 41): a non-empty local part, one \<^verbatim>\<open>@\<close>, and a rest free of white
  space and \<^verbatim>\<open>@\<close> that has a dot with at least one character on each side.
\<close>

definition emailRegex_test :: "string \<Rightarrow> bool" where
  "emailRegex_test s =
     (let loc = takeWhile (\<lambda>c. c \<noteq> CHR ''@'') s;
          rest = dropWhile (\<lambda>c. c \<noteq> CHR ''@'') s;
          dom = tl rest
      in rest \<noteq> [] \<and> loc \<noteq> [] \<and> \<not> list_ex isWhiteSpace loc
         \<and> \<not> list_ex (\<lambda>c. isWhiteSpace c \<or> c = CHR ''@'') dom
         \<and> list_ex (\<lambda>i. dom ! i = CHR ''.'') [1 ..< length dom - 1])"

section \<open>Row validation (excelController.ts)\<close>

text \<open>
  \<^verbatim>\<open>ExcelLeadRow\<close>: every cell is a string or \<^verbatim>\<open>undefined\<close>. The rows come from
  \<^verbatim>\<open>sheet_to_json\<close> with \<^verbatim>\<open>raw: false\<close>, which hands out formatted text only, so a
  present cell always has \<^verbatim>\<open>typeof\<close> \<^verbatim>\<open>'string'\<close>.
\<close>

record ExcelLeadRow =
  name :: "string option"
  email :: "string option"
  phone :: "string option"
  company :: "string option"
  position :: "string option"
  source :: "string option"
  priority :: "string option"

record ErrorEntry =
  row :: int
  field :: string
  message :: string

text \<open>The plain object built at lines 82-91.\<close>

record NormalizedLead =
  nl_name :: string
  nl_email :: string
  nl_phone :: string
  nl_company :: string
  nl_position :: string
  nl_source :: string
  nl_priority :: string
  nl_status :: string

record ValidationResult =
  isValid :: bool
  lead :: "NormalizedLead option"
  errs :: "ErrorEntry list"

definition validSources :: "string list" where
  "validSources = [''Website'', ''Social Media'', ''Referral'', ''Import'', ''Manual'',
                   ''Cold Call'', ''Email Campaign'']"

definition validPriorities :: "string list" where
  "validPriorities = [''High'', ''Medium'', ''Low'']"

text \<open>\<^verbatim>\<open>x\<close> as a condition: \<^verbatim>\<open>undefined\<close> and the empty string are falsy.\<close>

fun truthy :: "string option \<Rightarrow> bool" where
  "truthy None \<longleftrightarrow> False"
| "truthy (Some s) \<longleftrightarrow> s \<noteq> []"

text \<open>
  The guard of the three required fields,
  \<^verbatim>\<open>!x || typeof x !== 'string' || x.trim().length === 0\<close>.
\<close>

fun isMissing :: "string option \<Rightarrow> bool" where
  "isMissing None \<longleftrightarrow> True"
| "isMissing (Some s) \<longleftrightarrow> s = [] \<or> length (trim s) = 0"

text \<open>\<^verbatim>\<open>x && typeof x === 'string' ? x.trim() : ''\<close> (lines 86-87).\<close>

fun trimOrEmpty :: "string option \<Rightarrow> string" where
  "trimOrEmpty None = []"
| "trimOrEmpty (Some s) = (if s \<noteq> [] then trim s else [])"

text \<open>The string of a cell already known to hold one (\<^verbatim>\<open>row.name!\<close>).\<close>

fun str :: "string option \<Rightarrow> string" where
  "str None = []"
| "str (Some s) = s"

definition nameErrors :: "ExcelLeadRow \<Rightarrow> int \<Rightarrow> ErrorEntry list" where
  "nameErrors r rowIndex =
     (if isMissing (name r)
      then [\<lparr>row = rowIndex, field = ''name'', message = ''Name is required''\<rparr>] else [])"

definition emailErrors :: "ExcelLeadRow \<Rightarrow> int \<Rightarrow> ErrorEntry list" where
  "emailErrors r rowIndex =
     (if isMissing (email r)
      then [\<lparr>row = rowIndex, field = ''email'', message = ''Email is required''\<rparr>]
      else if \<not> emailRegex_test (trim (str (email r)))
      then [\<lparr>row = rowIndex, field = ''email'', message = ''Invalid email format''\<rparr>]
      else [])"

definition phoneErrors :: "ExcelLeadRow \<Rightarrow> int \<Rightarrow> ErrorEntry list" where
  "phoneErrors r rowIndex =
     (if isMissing (phone r)
      then [\<lparr>row = rowIndex, field = ''phone'', message = ''Phone is required''\<rparr>] else [])"

text \<open>
  Lines 47-60: the value of the variable \<^verbatim>\<open>source\<close> after the block, together with
  the errors the block pushes.
\<close>

definition sourceCheck :: "ExcelLeadRow \<Rightarrow> int \<Rightarrow> string \<times> ErrorEntry list" where
  "sourceCheck r rowIndex =
     (if truthy (source r)
      then (let normalizedSource = trim (str (source r))
            in if normalizedSource \<in> set validSources then (normalizedSource, [])
               else (''Import'',
                     [\<lparr>row = rowIndex, field = ''source'',
                       message = ''Invalid source. Must be one of: ''
                                 @ join '', '' validSources\<rparr>]))
      else (''Import'', []))"

text \<open>Lines 62-75, the same for \<^verbatim>\<open>priority\<close>.\<close>

definition priorityCheck :: "ExcelLeadRow \<Rightarrow> int \<Rightarrow> string \<times> ErrorEntry list" where
  "priorityCheck r rowIndex =
     (if truthy (priority r)
      then (let normalizedPriority = trim (str (priority r))
            in if normalizedPriority \<in> set validPriorities then (normalizedPriority, [])
               else (''Medium'',
                     [\<lparr>row = rowIndex, field = ''priority'',
                       message = ''Invalid priority. Must be one of: ''
                                 @ join '', '' validPriorities\<rparr>]))
      else (''Medium'', []))"

definition validateAndNormalizeLeadRow :: "ExcelLeadRow \<Rightarrow> int \<Rightarrow> ValidationResult" where
  "validateAndNormalizeLeadRow r rowIndex =
     (let errors = nameErrors r rowIndex @ emailErrors r rowIndex @ phoneErrors r rowIndex
                   @ snd (sourceCheck r rowIndex) @ snd (priorityCheck r rowIndex)
      in if length errors > 0
         then \<lparr>isValid = False, lead = None, errs = errors\<rparr>
         else \<lparr>isValid = True,
               lead = Some \<lparr>nl_name = trim (str (name r)),
                            nl_email = toLowerCase (trim (str (email r))),
                            nl_phone = trim (str (phone r)),
                            nl_company = trimOrEmpty (company r),
                            nl_position = trimOrEmpty (position r),
                            nl_source = fst (sourceCheck r rowIndex),
                            nl_priority = fst (priorityCheck r rowIndex),
                            nl_status = ''New''\<rparr>,
               errs = []\<rparr>)"

section \<open>The Lead collection (models/Lead.ts)\<close>

text \<open>
  A Lead document. \<^verbatim>\<open>name\<close>, \<^verbatim>\<open>email\<close> and \<^verbatim>\<open>phone\<close> are strings in every document
  the controllers build (they test the three for presence before constructing one, and
  an update assigns a field only when the new value is not \<^verbatim>\<open>undefined\<close>);
  \<^verbatim>\<open>company\<close> and \<^verbatim>\<open>position\<close> may be absent; \<^verbatim>\<open>source\<close>, \<^verbatim>\<open>status\<close>,
  \<^verbatim>\<open>priority\<close> and \<^verbatim>\<open>leadScore\<close> have schema defaults. \<open>lead_id\<close> is \<^verbatim>\<open>_id\<close>; of a
  note only its \<^verbatim>\<open>content\<close> is kept.
\<close>

record Lead =
  lead_id :: nat
  lead_name :: string
  lead_email :: string
  lead_phone :: string
  lead_company :: "string option"
  lead_position :: "string option"
  lead_source :: string
  lead_status :: string
  lead_priority :: string
  assignedTo :: "string option"
  assignedBy :: "string option"
  lead_notes :: "string list"
  leadScore :: int

text \<open>The object handed to \<^verbatim>\<open>new Lead(...)\<close>.\<close>

record LeadInit =
  i_name :: string
  i_email :: string
  i_phone :: string
  i_company :: "string option"
  i_position :: "string option"
  i_source :: "string option"
  i_status :: "string option"
  i_priority :: "string option"
  i_assignedBy :: "string option"

text \<open>
  The setters of the schema: \<^verbatim>\<open>trim\<close> on name, email, phone, company, position;
  \<^verbatim>\<open>lowercase\<close> on email.
\<close>

definition setName :: "string \<Rightarrow> string" where
  "setName v = trim v"

definition setEmail :: "string \<Rightarrow> string" where
  "setEmail v = trim (toLowerCase v)"

definition setPhone :: "string \<Rightarrow> string" where
  "setPhone v = trim v"

definition orDefault :: "string option \<Rightarrow> string \<Rightarrow> string" where
  "orDefault v d = (case v of None \<Rightarrow> d | Some s \<Rightarrow> s)"

text \<open>
  \<^verbatim>\<open>new Lead(init)\<close>: setters on the given fields, schema defaults on the others
  (source \<^verbatim>\<open>'Manual'\<close>, status \<^verbatim>\<open>'New'\<close>, priority \<^verbatim>\<open>'Medium'\<close>, leadScore 50, no notes).
\<close>

definition new_Lead :: "nat \<Rightarrow> LeadInit \<Rightarrow> Lead" where
  "new_Lead oid i =
     \<lparr>lead_id = oid,
      lead_name = setName (i_name i),
      lead_email = setEmail (i_email i),
      lead_phone = setPhone (i_phone i),
      lead_company = map_option trim (i_company i),
      lead_position = map_option trim (i_position i),
      lead_source = orDefault (i_source i) ''Manual'',
      lead_status = orDefault (i_status i) ''New'',
      lead_priority = orDefault (i_priority i) ''Medium'',
      assignedTo = None,
      assignedBy = i_assignedBy i,
      lead_notes = [],
      leadScore = 50\<rparr>"

text \<open>A fresh \<^verbatim>\<open>_id\<close>: larger than every id in the collection.\<close>

definition freshId :: "Lead list \<Rightarrow> nat" where
  "freshId store = Suc (foldr max (map lead_id store) 0)"

subsection \<open>Schema validation\<close>

definition validStatuses :: "string list" where
  "validStatuses = [''New'', ''Contacted'', ''Interested'', ''Not Interested'', ''Follow-up'',
                    ''Qualified'', ''Proposal Sent'', ''Negotiating'', ''Closed-Won'',
                    ''Closed-Lost'']"

definition isDigit :: "char \<Rightarrow> bool" where
  "isDigit c \<longleftrightarrow> 48 \<le> (of_char c :: nat) \<and> (of_char c :: nat) \<le> 57"

definition phoneChar :: "char \<Rightarrow> bool" where
  "phoneChar c \<longleftrightarrow>
     isDigit c \<or> isWhiteSpace c \<or> c \<in> {CHR ''-'', CHR ''('', CHR '')'', CHR ''.''}"

text \<open>The regular expression \<^verbatim>\<open>/^[\+]?[\d\s\-\(\)\.]{7,25}$/\<close> (Lead.ts line 51).\<close>

definition phoneRegex_test :: "string \<Rightarrow> bool" where
  "phoneRegex_test s =
     (let body = (case s of [] \<Rightarrow> [] | c # cs \<Rightarrow> if c = CHR ''+'' then cs else s)
      in 7 \<le> length body \<and> length body \<le> 25 \<and> list_all phoneChar body)"

text \<open>
  One validator list per schema path, in the order of the schema; the first failing
  validator of a path gives that path's message. \<^verbatim>\<open>required\<close> rejects the empty string;
  \<^verbatim>\<open>match\<close> and the length validators run on non-empty values.
\<close>

definition firstFailure :: "(bool \<times> string) list \<Rightarrow> string option" where
  "firstFailure checks = map_option snd (find (\<lambda>(okay, msg). \<not> okay) checks)"

definition enumMessage :: "string \<Rightarrow> string \<Rightarrow> string" where
  "enumMessage v path = ''`'' @ v @ ''` is not a valid enum value for path `'' @ path @ ''`.''"

definition nameChecks :: "Lead \<Rightarrow> (bool \<times> string) list" where
  "nameChecks d =
     [(lead_name d \<noteq> [], ''Name is required''),
      (2 \<le> length (lead_name d), ''Name must be at least 2 characters long''),
      (length (lead_name d) \<le> 100, ''Name cannot exceed 100 characters'')]"

definition emailChecks :: "Lead \<Rightarrow> (bool \<times> string) list" where
  "emailChecks d =
     [(lead_email d \<noteq> [], ''Email is required''),
      (emailRegex_test (lead_email d), ''Please enter a valid email address'')]"

definition phoneChecks :: "Lead \<Rightarrow> (bool \<times> string) list" where
  "phoneChecks d =
     [(lead_phone d \<noteq> [], ''Phone is required''),
      (phoneRegex_test (lead_phone d), ''Please enter a valid phone number'')]"

definition optLengthChecks :: "string option \<Rightarrow> string \<Rightarrow> (bool \<times> string) list" where
  "optLengthChecks v msg = (case v of None \<Rightarrow> [] | Some s \<Rightarrow> [(length s \<le> 100, msg)])"

definition enumChecks :: "string \<Rightarrow> string list \<Rightarrow> string \<Rightarrow> string \<Rightarrow> (bool \<times> string) list" where
  "enumChecks v allowed path requiredMsg =
     [(v \<noteq> [], requiredMsg), (v \<in> set allowed, enumMessage v path)]"

definition noteChecks :: "string \<Rightarrow> (bool \<times> string) list" where
  "noteChecks c =
     [(c \<noteq> [], ''Note content is required''),
      (length c \<le> 1000, ''Note cannot exceed 1000 characters'')]"

text \<open>
  The failures of a document as (path, message) pairs. \<open>paths\<close> says which paths are
  validated, as the argument of \<^verbatim>\<open>validate(pathsToValidate)\<close> does; \<^verbatim>\<open>save()\<close> validates
  every path, of a new document and of a loaded one alike. The content of the note at
  index i is the path \<^verbatim>\<open>notes.i.content\<close>.
\<close>

definition pathFailure :: "(string \<Rightarrow> bool) \<Rightarrow> string \<Rightarrow> (bool \<times> string) list \<Rightarrow> (string \<times> string) list" where
  "pathFailure paths path checks =
     (if paths path
      then (case firstFailure checks of None \<Rightarrow> [] | Some msg \<Rightarrow> [(path, msg)])
      else [])"

definition validateLead :: "(string \<Rightarrow> bool) \<Rightarrow> Lead \<Rightarrow> (string \<times> string) list" where
  "validateLead paths d =
     pathFailure paths ''name'' (nameChecks d)
     @ pathFailure paths ''email'' (emailChecks d)
     @ pathFailure paths ''phone'' (phoneChecks d)
     @ pathFailure paths ''company''
         (optLengthChecks (lead_company d) ''Company name cannot exceed 100 characters'')
     @ pathFailure paths ''position''
         (optLengthChecks (lead_position d) ''Position cannot exceed 100 characters'')
     @ pathFailure paths ''source''
         (enumChecks (lead_source d) validSources ''source'' ''Source is required'')
     @ pathFailure paths ''status''
         (enumChecks (lead_status d) validStatuses ''status'' ''Path `status` is required.'')
     @ pathFailure paths ''priority''
         (enumChecks (lead_priority d) validPriorities ''priority''
            ''Path `priority` is required.'')
     @ concat (map (\<lambda>(i, c). pathFailure paths (''notes.'' @ showNat i @ ''.content'')
                                 (noteChecks c))
         (zip [0 ..< length (lead_notes d)] (lead_notes d)))"

subsection \<open>The pre-save hook\<close>

text \<open>The object literal \<^verbatim>\<open>scoreMap\<close> (Lead.ts lines 288-299), keyed by status.\<close>

definition scoreMap :: "(string \<times> int) list" where
  "scoreMap = [(''New'', 20), (''Contacted'', 30), (''Interested'', 50),
               (''Not Interested'', 10), (''Follow-up'', 40), (''Qualified'', 70),
               (''Proposal Sent'', 80), (''Negotiating'', 90), (''Closed-Won'', 100),
               (''Closed-Lost'', 0)]"

text \<open>
  \<^verbatim>\<open>scoreMap[status] || 50\<close>: a missing key reads \<^verbatim>\<open>undefined\<close>, and \<^verbatim>\<open>undefined\<close> and the
  number 0 are both falsy, so both give the right operand.
\<close>

definition scoreOrDefault :: "string \<Rightarrow> int" where
  "scoreOrDefault st =
     (case map_of scoreMap st of None \<Rightarrow> 50 | Some v \<Rightarrow> if v = 0 then 50 else v)"

text \<open>
  \<^verbatim>\<open>leadSchema.pre('save', ...)\<close> (lines 286-304); \<open>statusModified\<close> is
  \<^verbatim>\<open>this.isModified('status')\<close>.
\<close>

definition preSave :: "bool \<Rightarrow> Lead \<Rightarrow> Lead" where
  "preSave statusModified d =
     (if statusModified then d\<lparr>leadScore := scoreOrDefault (lead_status d)\<rparr> else d)"

subsection \<open>Saving: validation, hook, unique indexes\<close>

text \<open>
  What \<^verbatim>\<open>save()\<close> can throw: a validation error with its (path, message) failures, or
  the server's duplicate-key error (code 11000) with the index field and the value.
\<close>

datatype SaveError =
    ValidationError "(string \<times> string) list"
  | DuplicateKey string string

text \<open>The double quote character, as a one-letter string.\<close>

definition dq :: string where
  "dq = [CHR 0x22]"

text \<open>
  The namespace of the collection: the model \<^verbatim>\<open>Lead\<close> lives in the collection
  \<^verbatim>\<open>leads\<close> of the database named by \<^verbatim>\<open>MONGODB_URI\<close>, which the README sets to
  \<^verbatim>\<open>mongodb://localhost:27017/lead-manager\<close>.
\<close>

definition namespace :: string where
  "namespace = ''lead-manager.leads''"

text \<open>\<^verbatim>\<open>error.message\<close>, as mongoose and the server print it.\<close>

fun errorMessage :: "SaveError \<Rightarrow> string" where
  "errorMessage (ValidationError fs) =
     ''Lead validation failed: '' @ join '', '' (map (\<lambda>(p, m). p @ '': '' @ m) fs)"
| "errorMessage (DuplicateKey f v) =
     ''E11000 duplicate key error collection: '' @ namespace @ '' index: '' @ f
     @ ''_1 dup key: { '' @ f @ '': '' @ dq @ v @ dq @ '' }''"

text \<open>\<^verbatim>\<open>leadSchema.statics.getDuplicateError\<close> (lines 327-340).\<close>

fun getDuplicateError :: "SaveError \<Rightarrow> string option" where
  "getDuplicateError (DuplicateKey f v) =
     (if f = ''email'' then Some (''A lead with email '' @ dq @ v @ dq @ '' already exists'')
      else if f = ''phone'' then Some (''A lead with phone number '' @ dq @ v @ dq @ '' already exists'')
      else Some ''A lead with this information already exists'')"
| "getDuplicateError (ValidationError fs) = None"

text \<open>
  The unique indexes on \<^verbatim>\<open>email\<close> and \<^verbatim>\<open>phone\<close> (lines 39, 49, 307, 308): a write whose
  key is held by another document of the collection fails with code 11000 and leaves
  the collection as it was.
\<close>

definition uniqueViolation :: "Lead list \<Rightarrow> Lead \<Rightarrow> SaveError option" where
  "uniqueViolation others d =
     (if \<exists>x \<in> set others. lead_email x = lead_email d
      then Some (DuplicateKey ''email'' (lead_email d))
      else if \<exists>x \<in> set others. lead_phone x = lead_phone d
      then Some (DuplicateKey ''phone'' (lead_phone d))
      else None)"

text \<open>\<^verbatim>\<open>save()\<close> of a new document: the store with the document appended, or the error.\<close>

definition saveNew :: "bool \<Rightarrow> Lead list \<Rightarrow> Lead \<Rightarrow> SaveError + (Lead list \<times> Lead)" where
  "saveNew statusModified store d =
     (case validateLead (\<lambda>p. True) d of
        f # fs \<Rightarrow> Inl (ValidationError (f # fs))
      | [] \<Rightarrow>
          (let d' = preSave statusModified d
           in case uniqueViolation store d' of
                Some e \<Rightarrow> Inl e
              | None \<Rightarrow> Inr (store @ [d'], d')))"

text \<open>
  \<^verbatim>\<open>save()\<close> of a loaded document \<open>old\<close> changed into \<open>d\<close>: the whole document is
  validated, the paths loaded from the database as well as the assigned ones, and the
  document replaces the stored one with its \<^verbatim>\<open>_id\<close>.
\<close>

text \<open>An update writes only the changed paths, so only a changed key can collide.\<close>

definition uniqueViolationUpdate :: "Lead list \<Rightarrow> Lead \<Rightarrow> Lead \<Rightarrow> SaveError option" where
  "uniqueViolationUpdate others old d =
     (if lead_email d \<noteq> lead_email old \<and> (\<exists>x \<in> set others. lead_email x = lead_email d)
      then Some (DuplicateKey ''email'' (lead_email d))
      else if lead_phone d \<noteq> lead_phone old \<and> (\<exists>x \<in> set others. lead_phone x = lead_phone d)
      then Some (DuplicateKey ''phone'' (lead_phone d))
      else None)"

definition saveExisting :: "Lead list \<Rightarrow> Lead \<Rightarrow> Lead \<Rightarrow> SaveError + (Lead list \<times> Lead)" where
  "saveExisting store old d =
     (case validateLead (\<lambda>p. True) d of
        f # fs \<Rightarrow> Inl (ValidationError (f # fs))
      | [] \<Rightarrow>
          (let d' = preSave (lead_status d \<noteq> lead_status old) d
           in case uniqueViolationUpdate (filter (\<lambda>x. lead_id x \<noteq> lead_id d') store) old d' of
                Some e \<Rightarrow> Inl e
              | None \<Rightarrow> Inr (map (\<lambda>x. if lead_id x = lead_id d' then d' else x) store, d')))"

section \<open>The import pipeline (excelController.ts, importFromExcel)\<close>

text \<open>
  A worksheet as \<^verbatim>\<open>sheet_to_json(worksheet, {header: 1, raw: false})\<close> returns it: an
  array of rows, each an array of cells, the header row first. A workbook lists its
  sheets under their names, in the order of \<^verbatim>\<open>SheetNames\<close>.
\<close>

type_synonym Sheet = "string option list list"

type_synonym Workbook = "(string \<times> Sheet) list"

text \<open>\<^verbatim>\<open>rowArray[k]\<close>: reading past the end of an array gives \<^verbatim>\<open>undefined\<close>.\<close>

definition cellAt :: "string option list \<Rightarrow> nat \<Rightarrow> string option" where
  "cellAt rowArray k = (if k < length rowArray then rowArray ! k else None)"

definition toRow :: "string option list \<Rightarrow> ExcelLeadRow" where
  "toRow rowArray =
     \<lparr>name = cellAt rowArray 0, email = cellAt rowArray 1, phone = cellAt rowArray 2,
      company = cellAt rowArray 3, position = cellAt rowArray 4, source = cellAt rowArray 5,
      priority = cellAt rowArray 6\<rparr>"

text \<open>The filter of line 186, \<^verbatim>\<open>row => row.name || row.email\<close>.\<close>

definition keptRow :: "ExcelLeadRow \<Rightarrow> bool" where
  "keptRow r \<longleftrightarrow> truthy (name r) \<or> truthy (email r)"

text \<open>Lines 170-186: \<^verbatim>\<open>jsonData\<close>.\<close>

definition jsonDataOf :: "Sheet \<Rightarrow> ExcelLeadRow list" where
  "jsonDataOf sheet = filter keptRow (map toRow (drop 1 sheet))"

text \<open>
  Lines 194-202, the validation loop from index \<open>i\<close> on; \<open>validLeads\<close> and \<open>errors\<close> are
  the two arrays it pushes to.
\<close>

fun validateLoop ::
  "ExcelLeadRow list \<Rightarrow> nat \<Rightarrow> NormalizedLead list \<Rightarrow> ErrorEntry list
   \<Rightarrow> NormalizedLead list \<times> ErrorEntry list" where
  "validateLoop [] i validLeads errors = (validLeads, errors)"
| "validateLoop (r # rs) i validLeads errors =
     (let validation = validateAndNormalizeLeadRow r (int i + 2)
      in case (isValid validation, lead validation) of
           (True, Some l) \<Rightarrow> validateLoop rs (Suc i) (validLeads @ [l]) errors
         | _ \<Rightarrow> validateLoop rs (Suc i) validLeads (errors @ errs validation))"

text \<open>
  \<^verbatim>\<open>emailMap\<close>, a \<^verbatim>\<open>Map<string, number[]>\<close>: an association list in insertion order.
  \<open>mapPush\<close> is the body of the \<^verbatim>\<open>forEach\<close> of lines 206-211: a new key enters at the
  end with an empty array, then the index is pushed to the key's array.
\<close>

fun mapPush :: "(string \<times> nat list) list \<Rightarrow> string \<Rightarrow> nat \<Rightarrow> (string \<times> nat list) list" where
  "mapPush [] k i = [(k, [i])]"
| "mapPush ((k', v) # m) k i =
     (if k' = k then (k', v @ [i]) # m else (k', v) # mapPush m k i)"

definition emailMapOf :: "NormalizedLead list \<Rightarrow> (string \<times> nat list) list" where
  "emailMapOf validLeads =
     foldl (\<lambda>m (l, index). mapPush m (nl_email l) index) []
       (zip validLeads [0 ..< length validLeads])"

text \<open>Lines 214-224: the errors pushed for the second and later index of every key.\<close>

definition duplicateErrors :: "(string \<times> nat list) list \<Rightarrow> ErrorEntry list" where
  "duplicateErrors emailMap =
     concat (map (\<lambda>(e, indices).
        if length indices > 1
        then map (\<lambda>index. \<lparr>row = int index + 2, field = ''email'',
                             message = ''Duplicate email within file: '' @ e\<rparr>) (drop 1 indices)
        else []) emailMap)"

text \<open>
  Lines 227-230: \<^verbatim>\<open>emailIndices[0] === index\<close>, where a missing key gives the empty
  array and \<^verbatim>\<open>[][0]\<close> is \<^verbatim>\<open>undefined\<close>.
\<close>

definition firstIndexIs :: "(string \<times> nat list) list \<Rightarrow> string \<Rightarrow> nat \<Rightarrow> bool" where
  "firstIndexIs emailMap e index =
     (case map_of emailMap e of None \<Rightarrow> False | Some [] \<Rightarrow> False | Some (j # js) \<Rightarrow> j = index)"

definition uniqueValidLeadsOf ::
  "NormalizedLead list \<Rightarrow> (string \<times> nat list) list \<Rightarrow> NormalizedLead list" where
  "uniqueValidLeadsOf validLeads emailMap =
     map fst (filter (\<lambda>(l, index). firstIndexIs emailMap (nl_email l) index)
                (zip validLeads [0 ..< length validLeads]))"

text \<open>
  Lines 233-237: the emails of the stored leads whose email is one of the candidates
  (\<^verbatim>\<open>Lead.find({email: {$in: ...}})\<close>), as the members of \<^verbatim>\<open>existingEmailSet\<close>.
\<close>

definition existingEmailsOf :: "Lead list \<Rightarrow> NormalizedLead list \<Rightarrow> string list" where
  "existingEmailsOf store uniqueValidLeads =
     map lead_email
       (filter (\<lambda>d. lead_email d \<in> set (map nl_email uniqueValidLeads)) store)"

text \<open>\<^verbatim>\<open>xs.findIndex(p)\<close>: the first index whose element satisfies \<open>p\<close>, or -1.\<close>

fun findIndex :: "('a \<Rightarrow> bool) \<Rightarrow> 'a list \<Rightarrow> int" where
  "findIndex p [] = -1"
| "findIndex p (x # xs) =
     (if p x then 0 else (let j = findIndex p xs in if j < 0 then -1 else j + 1))"

text \<open>\<^verbatim>\<open>{...leadData, assignedBy: req.user?.userId}\<close> (lines 254-257).\<close>

definition importInit :: "NormalizedLead \<Rightarrow> string option \<Rightarrow> LeadInit" where
  "importInit leadData uid =
     \<lparr>i_name = nl_name leadData, i_email = nl_email leadData, i_phone = nl_phone leadData,
      i_company = Some (nl_company leadData), i_position = Some (nl_position leadData),
      i_source = Some (nl_source leadData), i_status = Some (nl_status leadData),
      i_priority = Some (nl_priority leadData), i_assignedBy = uid\<rparr>"

text \<open>
  Lines 240-269, the loop over \<^verbatim>\<open>uniqueValidLeads\<close>. The state is the collection, the
  array \<^verbatim>\<open>createdLeads\<close> and the array \<^verbatim>\<open>errors\<close>. The status is given to the
  constructor, so \<^verbatim>\<open>isModified('status')\<close> holds when the hook runs.
\<close>

fun processLeads ::
  "string option \<Rightarrow> string list \<Rightarrow> NormalizedLead list \<Rightarrow> NormalizedLead list
   \<Rightarrow> Lead list \<Rightarrow> Lead list \<Rightarrow> ErrorEntry list
   \<Rightarrow> Lead list \<times> Lead list \<times> ErrorEntry list" where
  "processLeads uid existingEmailSet validLeads [] store createdLeads errors =
     (store, createdLeads, errors)"
| "processLeads uid existingEmailSet validLeads (leadData # rest) store createdLeads errors =
     (if nl_email leadData \<in> set existingEmailSet
      then processLeads uid existingEmailSet validLeads rest store createdLeads
             (errors @ [\<lparr>row = findIndex (\<lambda>l. nl_email l = nl_email leadData) validLeads + 2,
                          field = ''email'',
                          message = ''Lead with email '' @ nl_email leadData
                                    @ '' already exists in database''\<rparr>])
      else (case saveNew True store (new_Lead (freshId store) (importInit leadData uid)) of
              Inr (store', d) \<Rightarrow>
                processLeads uid existingEmailSet validLeads rest store' (createdLeads @ [d])
                  errors
            | Inl createError \<Rightarrow>
                processLeads uid existingEmailSet validLeads rest store createdLeads
                  (errors @ [\<lparr>row = findIndex (\<lambda>l. nl_email l = nl_email leadData) validLeads
                                     + 2,
                               field = ''database'',
                               message = errorMessage createError\<rparr>])))"

text \<open>The \<^verbatim>\<open>data\<close> member of the response and the response itself.\<close>

record ImportData =
  totalRows :: int
  successfulImports :: int
  failedImports :: int
  errors :: "ErrorEntry list"
  leads :: "Lead list"

record ExcelUploadResult =
  httpStatus :: nat
  success :: bool
  resultMessage :: string
  topErrors :: "string list"
  data :: ImportData

definition emptyData :: ImportData where
  "emptyData = \<lparr>totalRows = 0, successfulImports = 0, failedImports = 0, errors = [],
                 leads = []\<rparr>"

text \<open>
  The request as the controller sees it: the uploaded file, absent or with the workbook
  read from it (\<open>None\<close> when reading throws), the authenticated user's id, and what
  the environment does to the two calls that can throw after parsing: whether the
  query \<^verbatim>\<open>Lead.find\<close> and the final \<^verbatim>\<open>fs.unlinkSync\<close> throw, and the \<^verbatim>\<open>message\<close> of the
  thrown value when it is an \<^verbatim>\<open>Error\<close> (\<open>None\<close> when it is anything else).
\<close>

record ImportRequest =
  uploadedFile :: "Workbook option option"
  userId :: "string option"
  findThrows :: bool
  unlinkThrows :: bool
  thrownMessage :: "string option"

text \<open>
  The answer of the outer \<^verbatim>\<open>catch\<close> (lines 288-308), with
  \<^verbatim>\<open>error instanceof Error ? error.message : 'Unknown error occurred'\<close>.
\<close>

definition serverError :: "string option \<Rightarrow> ExcelUploadResult" where
  "serverError thrown =
     \<lparr>httpStatus = 500, success = False, resultMessage = ''Failed to process Excel file'',
      topErrors = [case thrown of Some m \<Rightarrow> m | None \<Rightarrow> ''Unknown error occurred''],
      data = emptyData\<rparr>"

text \<open>Lines 188-284 for a worksheet: the report and the collection afterwards.\<close>

definition importSheet :: "ImportRequest \<Rightarrow> Sheet \<Rightarrow> Lead list \<Rightarrow> ExcelUploadResult \<times> Lead list" where
  "importSheet req sheet store =
     (let jsonData = jsonDataOf sheet;
          totalRows = int (length jsonData);
          (validLeads, errors1) = validateLoop jsonData 0 [] [];
          emailMap = emailMapOf validLeads;
          errors2 = errors1 @ duplicateErrors emailMap;
          uniqueValidLeads = uniqueValidLeadsOf validLeads emailMap
      in if findThrows req then (serverError (thrownMessage req), store)
         else
           (let existingEmailSet = existingEmailsOf store uniqueValidLeads;
                (store', createdLeads, errors3) =
                   processLeads (userId req) existingEmailSet validLeads uniqueValidLeads
                     store [] errors2
            in if unlinkThrows req then (serverError (thrownMessage req), store')
               else
                 (\<lparr>httpStatus = 200, success = True,
                   resultMessage = ''Import completed. '' @ showNat (length createdLeads)
                                   @ '' leads imported successfully.'',
                   topErrors = [],
                   data = \<lparr>totalRows = totalRows,
                            successfulImports = int (length createdLeads),
                            failedImports = totalRows - int (length createdLeads),
                            errors = errors3, leads = createdLeads\<rparr>\<rparr>, store')))"

definition badRequest :: "string \<Rightarrow> string list \<Rightarrow> ExcelUploadResult" where
  "badRequest msg es = \<lparr>httpStatus = 400, success = False, resultMessage = msg,
                         topErrors = es, data = emptyData\<rparr>"

text \<open>\<^verbatim>\<open>importFromExcel\<close> (lines 96-309).\<close>

definition importFromExcel :: "ImportRequest \<Rightarrow> Lead list \<Rightarrow> ExcelUploadResult \<times> Lead list" where
  "importFromExcel req store =
     (case uploadedFile req of
        None \<Rightarrow> (badRequest ''No file uploaded'' [], store)
      | Some None \<Rightarrow>
          (badRequest ''Failed to read the uploaded file''
             [''The file appears to be corrupted or in an unsupported format''], store)
      | Some (Some workbook) \<Rightarrow>
          (case workbook of
             [] \<Rightarrow> (badRequest ''No worksheets found in the file'' [], store)
           | (sheetName, worksheet) # others \<Rightarrow>
               if sheetName = [] then (badRequest ''No worksheets found in the file'' [], store)
               else importSheet req worksheet store))"

section \<open>Manual create and update (leadController)\<close>

text \<open>
  The request bodies. \<^verbatim>\<open>CreateLeadInput\<close> and \<^verbatim>\<open>UpdateLeadInput\<close> carry the same
  seven fields as a spreadsheet row, each possibly absent at run time, and one more:
  the text of an initial note, or the new status.
\<close>

record CreateLeadInput = ExcelLeadRow +
  noteText :: "string option"

record UpdateLeadInput = ExcelLeadRow +
  newStatus :: "string option"

text \<open>\<^verbatim>\<open>req.user\<close>: the role and id the authentication middleware attached.\<close>

record User =
  role :: string
  uid :: "string option"

text \<open>
  The JSON answer of the two controllers. \<open>apiData\<close> is the document under \<^verbatim>\<open>data\<close>:
  the saved lead on success, the colliding lead (of which the answer shows id, name,
  email, phone and company) when a duplicate is detected before saving.
\<close>

record ApiResponse =
  apiStatus :: nat
  apiSuccess :: bool
  apiMessage :: string
  apiErrors :: "string list"
  apiData :: "Lead option"

definition duplicateDetected :: "string \<Rightarrow> Lead option \<Rightarrow> ApiResponse" where
  "duplicateDetected err existing =
     \<lparr>apiStatus = 400, apiSuccess = False, apiMessage = ''Duplicate lead detected'',
      apiErrors = [err], apiData = existing\<rparr>"

text \<open>The \<^verbatim>\<open>catch\<close> blocks of both controllers (lines 253-272 and 366-385).\<close>

definition saveFailed :: "string \<Rightarrow> SaveError \<Rightarrow> ApiResponse" where
  "saveFailed what e =
     (case getDuplicateError e of
        Some duplicateError \<Rightarrow> duplicateDetected duplicateError None
      | None \<Rightarrow> \<lparr>apiStatus = 500, apiSuccess = False, apiMessage = what,
                  apiErrors = [errorMessage e], apiData = None\<rparr>)"

text \<open>\<^verbatim>\<open>{...leadFields, assignedBy: req.user?.userId}\<close> (lines 226-231).\<close>

definition createInit :: "CreateLeadInput \<Rightarrow> string option \<Rightarrow> LeadInit" where
  "createInit leadData u =
     \<lparr>i_name = str (name leadData), i_email = str (email leadData),
      i_phone = str (phone leadData), i_company = company leadData,
      i_position = position leadData, i_source = source leadData, i_status = None,
      i_priority = priority leadData, i_assignedBy = u\<rparr>"

text \<open>
  \<^verbatim>\<open>new mongoose.Types.ObjectId(s)\<close> for a string: bson 6, which mongoose 8 ships,
  accepts exactly the strings of 24 hexadecimal digits and throws a \<^verbatim>\<open>BSONError\<close> with
  the message below for every other string.
\<close>

definition isHexDigit :: "char \<Rightarrow> bool" where
  "isHexDigit c \<longleftrightarrow>
     isDigit c \<or> (65 \<le> (of_char c :: nat) \<and> (of_char c :: nat) \<le> 70)
     \<or> (97 \<le> (of_char c :: nat) \<and> (of_char c :: nat) \<le> 102)"

definition validObjectId :: "string \<Rightarrow> bool" where
  "validObjectId s \<longleftrightarrow> length s = 24 \<and> list_all isHexDigit s"

definition objectIdError :: string where
  "objectIdError = ''input must be a 24 character hex string, 12 byte Uint8Array, or an integer''"

text \<open>
  \<^verbatim>\<open>createLead\<close> (lines 170-273). The note's author is built with
  \<^verbatim>\<open>new ObjectId(req.user?.userId || '')\<close>, which throws unless the user id is a valid
  ObjectId string; the note's content passes the schema's \<^verbatim>\<open>trim\<close> setter. No status
  is given to the constructor, so \<^verbatim>\<open>isModified('status')\<close> is false when the hook runs.
\<close>

definition createLead :: "User \<Rightarrow> CreateLeadInput \<Rightarrow> Lead list \<Rightarrow> ApiResponse \<times> Lead list" where
  "createLead user leadData store =
     (let missingFields =
            map fst (filter (\<lambda>(f, v). \<not> truthy v)
              [(''name'', name leadData), (''email'', email leadData),
               (''phone'', phone leadData)])
      in if length missingFields > 0
         then (\<lparr>apiStatus = 400, apiSuccess = False, apiMessage = ''Missing required fields'',
                 apiErrors = [''Required fields: '' @ join '', '' missingFields],
                 apiData = None\<rparr>, store)
         else
           (case find (\<lambda>d. lead_email d = trim (toLowerCase (str (email leadData)))) store of
              Some existingEmail \<Rightarrow>
                (duplicateDetected (''A lead with email '' @ dq @ str (email leadData) @ dq
                                    @ '' already exists'') (Some existingEmail), store)
            | None \<Rightarrow>
                (case find (\<lambda>d. lead_phone d = trim (str (phone leadData))) store of
                   Some existingPhone \<Rightarrow>
                     (duplicateDetected (''A lead with phone number '' @ dq
                                         @ str (phone leadData) @ dq @ '' already exists'')
                        (Some existingPhone), store)
                 | None \<Rightarrow>
                     (let l0 = new_Lead (freshId store) (createInit leadData (uid user))
                      in if truthy (noteText leadData) \<and> \<not> validObjectId (str (uid user))
                         then (\<lparr>apiStatus = 500, apiSuccess = False,
                                 apiMessage = ''Failed to create lead'',
                                 apiErrors = [objectIdError], apiData = None\<rparr>,
                               store)
                         else
                           (let l1 = (if truthy (noteText leadData)
                                      then l0\<lparr>lead_notes := lead_notes l0
                                                   @ [trim (str (noteText leadData))]\<rparr>
                                      else l0)
                            in case saveNew False store l1 of
                                 Inr (store', d) \<Rightarrow>
                                   (\<lparr>apiStatus = 201, apiSuccess = True,
                                     apiMessage = ''Lead created successfully'',
                                     apiErrors = [], apiData = Some d\<rparr>, store')
                               | Inl e \<Rightarrow> (saveFailed ''Failed to create lead'' e, store))))))"

text \<open>\<^verbatim>\<open>String(x)\<close> of an optional string.\<close>

definition String_of :: "string option \<Rightarrow> string" where
  "String_of v = (case v of None \<Rightarrow> ''undefined'' | Some s \<Rightarrow> s)"

text \<open>
  Lines 347-353: every allowed field whose new value is not \<^verbatim>\<open>undefined\<close> is
  assigned, through the schema's setter.
\<close>

definition upd :: "'a option \<Rightarrow> 'a \<Rightarrow> 'a" where
  "upd new old = (case new of None \<Rightarrow> old | Some v \<Rightarrow> v)"

definition assignFields :: "UpdateLeadInput \<Rightarrow> Lead \<Rightarrow> Lead" where
  "assignFields updateData l =
     l\<lparr>lead_name := upd (map_option setName (name updateData)) (lead_name l),
       lead_email := upd (map_option setEmail (email updateData)) (lead_email l),
       lead_phone := upd (map_option setPhone (phone updateData)) (lead_phone l),
       lead_company := (case company updateData of None \<Rightarrow> lead_company l
                        | Some v \<Rightarrow> Some (trim v)),
       lead_position := (case position updateData of None \<Rightarrow> lead_position l
                         | Some v \<Rightarrow> Some (trim v)),
       lead_source := upd (source updateData) (lead_source l),
       lead_status := upd (newStatus updateData) (lead_status l),
       lead_priority := upd (priority updateData) (lead_priority l)\<rparr>"

text \<open>\<^verbatim>\<open>updateLead\<close> (lines 275-386); \<open>leadId\<close> is \<^verbatim>\<open>req.params.id\<close>.\<close>

definition updateLead :: "User \<Rightarrow> nat \<Rightarrow> UpdateLeadInput \<Rightarrow> Lead list \<Rightarrow> ApiResponse \<times> Lead list" where
  "updateLead user leadId updateData store =
     (case find (\<lambda>d. lead_id d = leadId) store of
        None \<Rightarrow> (\<lparr>apiStatus = 404, apiSuccess = False, apiMessage = ''Lead not found'',
                   apiErrors = [], apiData = None\<rparr>, store)
      | Some l \<Rightarrow>
          if role user \<noteq> ''admin'' \<and> String_of (assignedTo l) \<noteq> String_of (uid user)
          then (\<lparr>apiStatus = 403, apiSuccess = False, apiMessage = ''Access denied'',
                  apiErrors = [], apiData = None\<rparr>, store)
          else
            (case (if truthy (email updateData)
                   then find (\<lambda>d. lead_email d = trim (toLowerCase (str (email updateData)))
                                   \<and> lead_id d \<noteq> leadId) store
                   else None) of
               Some existingEmail \<Rightarrow>
                 (duplicateDetected (''A lead with email '' @ dq @ str (email updateData) @ dq
                                     @ '' already exists'') (Some existingEmail), store)
             | None \<Rightarrow>
                 (case (if truthy (phone updateData)
                        then find (\<lambda>d. lead_phone d = trim (str (phone updateData))
                                        \<and> lead_id d \<noteq> leadId) store
                        else None) of
                    Some existingPhone \<Rightarrow>
                      (duplicateDetected (''A lead with phone number '' @ dq
                                          @ str (phone updateData) @ dq @ '' already exists'')
                         (Some existingPhone), store)
                  | None \<Rightarrow>
                      (case saveExisting store l (assignFields updateData l) of
                         Inr (store', d) \<Rightarrow>
                           (\<lparr>apiStatus = 200, apiSuccess = True,
                             apiMessage = ''Lead updated successfully'',
                             apiErrors = [], apiData = Some d\<rparr>, store')
                       | Inl e \<Rightarrow> (saveFailed ''Failed to update lead'' e, store)))))"

section \<open>The field mapper (SmartImportLeads.tsx, initializeFieldMappings)\<close>

text \<open>
  \<^verbatim>\<open>LeadFieldDefinition\<close> (of which the function reads name, label, required and
  defaultValue) and \<^verbatim>\<open>FieldMapping\<close>.
\<close>

record LeadFieldDefinition =
  fieldName :: string
  fieldLabel :: string
  fieldRequired :: bool
  fieldDefault :: "string option"

record FieldMapping =
  leadField :: string
  excelColumn :: string
  isRequired :: bool
  defaultValue :: "string option"

text \<open>The predicate handed to \<^verbatim>\<open>headers.find\<close> (lines 151-160).\<close>

definition headerMatches :: "LeadFieldDefinition \<Rightarrow> string \<Rightarrow> bool" where
  "headerMatches fld header =
     (let headerLower = trim (toLowerCase header);
          fieldLower = toLowerCase (fieldName fld);
          labelLower = toLowerCase (fieldLabel fld)
      in headerLower = fieldLower \<or> headerLower = labelLower
         \<or> js_includes headerLower fieldLower \<or> js_includes fieldLower headerLower)"

definition matchedHeaderOf :: "LeadFieldDefinition \<Rightarrow> string list \<Rightarrow> string option" where
  "matchedHeaderOf fld headers = find (headerMatches fld) headers"

text \<open>
  Lines 146-173: the mappings pushed for the catalogue \<^verbatim>\<open>leadFields\<close>, in its order.
  \<^verbatim>\<open>matchedHeader || ''\<close> turns a missing header into the empty string.
\<close>

definition initializeFieldMappings :: "LeadFieldDefinition list \<Rightarrow> string list \<Rightarrow> FieldMapping list" where
  "initializeFieldMappings leadFields headers =
     concat (map (\<lambda>fld.
        (let matchedHeader = matchedHeaderOf fld headers
         in if truthy matchedHeader \<or> fieldRequired fld
            then [\<lparr>leadField = fieldName fld,
                    excelColumn = (if truthy matchedHeader then str matchedHeader else []),
                    isRequired = fieldRequired fld,
                    defaultValue = fieldDefault fld\<rparr>]
            else [])) leadFields)"

section \<open>Notions used in the statements\<close>

text \<open>The two enum errors of a row, with the message written out.\<close>

definition sourceError :: "int \<Rightarrow> ErrorEntry" where
  "sourceError i = \<lparr>row = i, field = ''source'',
     message = ''Invalid source. Must be one of: Website, Social Media, Referral, Import, Manual, Cold Call, Email Campaign''\<rparr>"

definition priorityError :: "int \<Rightarrow> ErrorEntry" where
  "priorityError i = \<lparr>row = i, field = ''priority'',
     message = ''Invalid priority. Must be one of: High, Medium, Low''\<rparr>"

text \<open>All errors \<^verbatim>\<open>validateAndNormalizeLeadRow\<close> pushes for a row, in the order of the pushes.\<close>

definition rowErrors :: "ExcelLeadRow \<Rightarrow> int \<Rightarrow> ErrorEntry list" where
  "rowErrors r i = nameErrors r i @ emailErrors r i @ phoneErrors r i
                   @ snd (sourceCheck r i) @ snd (priorityCheck r i)"

text \<open>
  The two matching rules of the field mapper, taken apart: an exact match of the
  trimmed, lower-cased header with the field's name or label, and containment between
  that header and the field's name, in either direction.
\<close>

definition exactMatch :: "LeadFieldDefinition \<Rightarrow> string \<Rightarrow> bool" where
  "exactMatch fld header \<longleftrightarrow>
     trim (toLowerCase header) = toLowerCase (fieldName fld)
     \<or> trim (toLowerCase header) = toLowerCase (fieldLabel fld)"

definition containsMatch :: "LeadFieldDefinition \<Rightarrow> string \<Rightarrow> bool" where
  "containsMatch fld header \<longleftrightarrow>
     js_includes (trim (toLowerCase header)) (toLowerCase (fieldName fld))
     \<or> js_includes (toLowerCase (fieldName fld)) (trim (toLowerCase header))"

text \<open>
  The mapper as the specification words it, for comparison: the leftmost exact match
  wins; only without any exact match the leftmost containment match is taken.
\<close>

definition spec_matchedHeader :: "LeadFieldDefinition \<Rightarrow> string list \<Rightarrow> string option" where
  "spec_matchedHeader fld headers =
     (case find (exactMatch fld) headers of
        Some h \<Rightarrow> Some h
      | None \<Rightarrow> find (containsMatch fld) headers)"

text \<open>The mapping entry of a field, given the headers.\<close>

definition mappingOf :: "string list \<Rightarrow> LeadFieldDefinition \<Rightarrow> FieldMapping" where
  "mappingOf headers fld =
     \<lparr>leadField = fieldName fld, excelColumn = str (matchedHeaderOf fld headers),
      isRequired = fieldRequired fld, defaultValue = fieldDefault fld\<rparr>"

text \<open>
  Whether a row passes \<^verbatim>\<open>validateAndNormalizeLeadRow\<close> (the row index only labels the
  errors), and the lead the function builds from a row (lines 82-91).
\<close>

definition rowValid :: "ExcelLeadRow \<Rightarrow> bool" where
  "rowValid r \<longleftrightarrow> rowErrors r 0 = []"

definition normalize :: "ExcelLeadRow \<Rightarrow> NormalizedLead" where
  "normalize r =
     \<lparr>nl_name = trim (str (name r)),
      nl_email = toLowerCase (trim (str (email r))),
      nl_phone = trim (str (phone r)),
      nl_company = trimOrEmpty (company r),
      nl_position = trimOrEmpty (position r),
      nl_source = fst (sourceCheck r 0),
      nl_priority = fst (priorityCheck r 0),
      nl_status = ''New''\<rparr>"

section \<open>The import with its bookkeeping made visible\<close>

text \<open>
  The loops of \<^verbatim>\<open>importFromExcel\<close> once more, statement by statement, with ghost data
  added and nothing else changed: every pushed error is paired with the index in
  \<^verbatim>\<open>jsonData\<close> of the row the code is handling when it pushes, \<open>origin\<close> records for
  every entry of \<^verbatim>\<open>validLeads\<close> the index of the row it was built from, and
  \<open>createdRows\<close> records the rows whose lead was saved.
\<close>

fun validateLoopG ::
  "ExcelLeadRow list \<Rightarrow> nat \<Rightarrow> NormalizedLead list \<Rightarrow> nat list \<Rightarrow> (nat \<times> ErrorEntry) list
   \<Rightarrow> NormalizedLead list \<times> nat list \<times> (nat \<times> ErrorEntry) list" where
  "validateLoopG [] i validLeads origin errorsG = (validLeads, origin, errorsG)"
| "validateLoopG (r # rs) i validLeads origin errorsG =
     (let validation = validateAndNormalizeLeadRow r (int i + 2)
      in case (isValid validation, lead validation) of
           (True, Some l) \<Rightarrow> validateLoopG rs (Suc i) (validLeads @ [l]) (origin @ [i]) errorsG
         | _ \<Rightarrow> validateLoopG rs (Suc i) validLeads origin
                  (errorsG @ map (Pair i) (errs validation)))"

definition duplicateErrorsG :: "nat list \<Rightarrow> (string \<times> nat list) list \<Rightarrow> (nat \<times> ErrorEntry) list" where
  "duplicateErrorsG origin emailMap =
     concat (map (\<lambda>(e, indices).
        if length indices > 1
        then map (\<lambda>index. (origin ! index,
                            \<lparr>row = int index + 2, field = ''email'',
                             message = ''Duplicate email within file: '' @ e\<rparr>)) (drop 1 indices)
        else []) emailMap)"

definition uniqueIndexedOf ::
  "NormalizedLead list \<Rightarrow> (string \<times> nat list) list \<Rightarrow> (NormalizedLead \<times> nat) list" where
  "uniqueIndexedOf validLeads emailMap =
     filter (\<lambda>(l, index). firstIndexIs emailMap (nl_email l) index)
       (zip validLeads [0 ..< length validLeads])"

fun processLeadsG ::
  "string option \<Rightarrow> string list \<Rightarrow> NormalizedLead list \<Rightarrow> nat list
   \<Rightarrow> (NormalizedLead \<times> nat) list \<Rightarrow> Lead list \<Rightarrow> Lead list \<Rightarrow> nat list
   \<Rightarrow> (nat \<times> ErrorEntry) list
   \<Rightarrow> Lead list \<times> Lead list \<times> nat list \<times> (nat \<times> ErrorEntry) list" where
  "processLeadsG u existingEmailSet validLeads origin [] store createdLeads createdRows errorsG =
     (store, createdLeads, createdRows, errorsG)"
| "processLeadsG u existingEmailSet validLeads origin ((leadData, index) # rest) store
     createdLeads createdRows errorsG =
     (if nl_email leadData \<in> set existingEmailSet
      then processLeadsG u existingEmailSet validLeads origin rest store createdLeads
             createdRows
             (errorsG @ [(origin ! index,
                         \<lparr>row = findIndex (\<lambda>l. nl_email l = nl_email leadData) validLeads + 2,
                          field = ''email'',
                          message = ''Lead with email '' @ nl_email leadData
                                    @ '' already exists in database''\<rparr>)])
      else (case saveNew True store (new_Lead (freshId store) (importInit leadData u)) of
              Inr (store', d) \<Rightarrow>
                processLeadsG u existingEmailSet validLeads origin rest store'
                  (createdLeads @ [d]) (createdRows @ [origin ! index]) errorsG
            | Inl createError \<Rightarrow>
                processLeadsG u existingEmailSet validLeads origin rest store createdLeads
                  createdRows
                  (errorsG @ [(origin ! index,
                              \<lparr>row = findIndex (\<lambda>l. nl_email l = nl_email leadData) validLeads
                                     + 2,
                               field = ''database'',
                               message = errorMessage createError\<rparr>)])))"

text \<open>
  The rows whose lead was created and the errorsG with the rows that produced them, for
  an import that reaches the loop over \<^verbatim>\<open>uniqueValidLeads\<close>.
\<close>

definition importTrace :: "ImportRequest \<Rightarrow> Sheet \<Rightarrow> Lead list \<Rightarrow> nat list \<times> (nat \<times> ErrorEntry) list" where
  "importTrace req sheet store =
     (let jsonData = jsonDataOf sheet;
          (validLeads, origin, errors1) = validateLoopG jsonData 0 [] [] [];
          emailMap = emailMapOf validLeads;
          errors2 = errors1 @ duplicateErrorsG origin emailMap;
          existingEmailSet = existingEmailsOf store (uniqueValidLeadsOf validLeads emailMap);
          (store', createdLeads, createdRows, errors3) =
             processLeadsG (userId req) existingEmailSet validLeads origin
               (uniqueIndexedOf validLeads emailMap) store [] [] errors2
      in (createdRows, errors3))"

text \<open>
  The indices of \<^verbatim>\<open>validLeads\<close> that carry a given email, in increasing order, and
  whether an index is the first one with its email.
\<close>

definition indicesOf :: "NormalizedLead list \<Rightarrow> string \<Rightarrow> nat list" where
  "indicesOf vl e = filter (\<lambda>k. nl_email (vl ! k) = e) [0 ..< length vl]"

definition firstOcc :: "NormalizedLead list \<Rightarrow> nat \<Rightarrow> bool" where
  "firstOcc vl k \<longleftrightarrow> (\<forall>j < k. nl_email (vl ! j) \<noteq> nl_email (vl ! k))"

text \<open>The errors of the later phases, written out.\<close>

definition duplicateInFile :: "int \<Rightarrow> string \<Rightarrow> ErrorEntry" where
  "duplicateInFile n e =
     \<lparr>row = n, field = ''email'', message = ''Duplicate email within file: '' @ e\<rparr>"

definition duplicateInDatabase :: "int \<Rightarrow> string \<Rightarrow> ErrorEntry" where
  "duplicateInDatabase n e =
     \<lparr>row = n, field = ''email'',
      message = ''Lead with email '' @ e @ '' already exists in database''\<rparr>"

text \<open>The worksheet \<^verbatim>\<open>importFromExcel\<close> reads: the first sheet of the uploaded workbook.\<close>

definition firstSheet :: "ImportRequest \<Rightarrow> Sheet" where
  "firstSheet req =
     (case uploadedFile req of
        Some (Some ((sheetName, worksheet) # others)) \<Rightarrow> worksheet
      | _ \<Rightarrow> [])"

text \<open>
  The state of the collection the unique indexes and \<^verbatim>\<open>_id\<close> guarantee: no two
  documents share an id, an email or a phone.
\<close>

definition uniqueKeys :: "Lead list \<Rightarrow> bool" where
  "uniqueKeys store \<longleftrightarrow>
     distinct (map lead_id store) \<and> distinct (map lead_email store)
     \<and> distinct (map lead_phone store)"

text \<open>The error of a failed \<^verbatim>\<open>save()\<close> in the import loop, and the document the loop builds.\<close>

definition persistenceError :: "int \<Rightarrow> SaveError \<Rightarrow> ErrorEntry" where
  "persistenceError n e = \<lparr>row = n, field = ''database'', message = errorMessage e\<rparr>"

definition importDoc :: "Lead list \<Rightarrow> NormalizedLead \<Rightarrow> string option \<Rightarrow> Lead" where
  "importDoc store x u = new_Lead (freshId store) (importInit x u)"

text \<open>The row number the loop over \<^verbatim>\<open>uniqueValidLeads\<close> reports for a lead.\<close>

definition reportedRow :: "NormalizedLead list \<Rightarrow> NormalizedLead \<Rightarrow> int" where
  "reportedRow vl x = findIndex (\<lambda>l. nl_email l = nl_email x) vl + 2"




section \<open>Sample data\<close>

text \<open>Concrete documents, users and requests on which the results below are exercised.\<close>

definition storedLead :: Lead where
  "storedLead = \<lparr>lead_id = 1, lead_name = ''Ann Lee'', lead_email = ''ann@x.com'',
      lead_phone = ''555-0001'', lead_company = None, lead_position = None,
      lead_source = ''Manual'', lead_status = ''New'', lead_priority = ''Medium'',
      assignedTo = None, assignedBy = None, lead_notes = [], leadScore = 20\<rparr>"

definition adminUser :: User where
  "adminUser = \<lparr>role = ''admin'', uid = Some ''u1''\<rparr>"

definition statusUpdate :: "string \<Rightarrow> UpdateLeadInput" where
  "statusUpdate st = \<lparr>name = None, email = None, phone = None, company = None,
      position = None, source = None, priority = None, newStatus = Some st\<rparr>"

text \<open>Rows with a wrongly cased, a padded and an absent source and priority.\<close>

definition badEnumRow :: ExcelLeadRow where
  "badEnumRow = toRow [Some ''Ann'', Some ''ann@x.com'', Some ''555-0001'', None, None, Some ''website'', Some ''HIGH'']"

definition paddedEnumRow :: ExcelLeadRow where
  "paddedEnumRow = toRow [Some ''Ann'', Some ''ann@x.com'', Some ''555-0001'', None, None, Some '' Referral '', Some ''Low'']"

definition noEnumRow :: ExcelLeadRow where
  "noEnumRow = toRow [Some ''Ann'', Some ''ann@x.com'', Some ''555-0001'']"

text \<open>A sheet whose two data rows both fail validation, and a request uploading a sheet.\<close>

definition headerRow :: "string option list" where
  "headerRow = [Some ''Name'', Some ''Email'', Some ''Phone'']"

definition allFailSheet :: Sheet where
  "allFailSheet = [headerRow, [Some ''Zed'', Some ''zed@x.com''],
                   [Some ''Yo'', Some ''not-an-email'', Some ''555-0002'']]"

definition uploadOf :: "Sheet \<Rightarrow> ImportRequest" where
  "uploadOf sheet = \<lparr>uploadedFile = Some (Some [(''Sheet1'', sheet)]), userId = Some ''u1'',
                      findThrows = False, unlinkThrows = False, thrownMessage = None\<rparr>"

text \<open>A catalogue entry and a header list with a containing header left of the exact one.\<close>

definition nameField :: LeadFieldDefinition where
  "nameField = \<lparr>fieldName = ''name'', fieldLabel = ''Name'', fieldRequired = True,
                 fieldDefault = None\<rparr>"

definition twoHeaders :: "string list" where
  "twoHeaders = [''Company Name'', ''Name'']"

text \<open>
  A sheet with one row of every kind, imported into a collection that holds
  \<open>storedLead\<close>: a row without phone, a row whose email is stored already, a row that
  imports, a row repeating the email of the row before, and a row whose phone is stored
  already. The spreadsheet rows are 2 to 6.
\<close>

definition mixedSheet :: Sheet where
  "mixedSheet =
     [headerRow,
      [Some ''Zed'', Some ''zed@x.com''],
      [Some ''Ann'', Some ''ANN@x.com'', Some ''555-0100''],
      [Some ''Bo'', Some ''bo@x.com'', Some ''555-0002''],
      [Some ''Bo Two'', Some ''Bo@X.com '', Some ''555-0003''],
      [Some ''Cy'', Some ''cy@x.com'', Some ''555-0001'']]"

text \<open>
  A sheet whose first data row holds a phone, a company, a position, a source and a
  priority but neither name nor email, and whose second data row is a complete lead.
\<close>

definition namelessSheet :: Sheet where
  "namelessSheet =
     [headerRow,
      [None, None, Some ''555-0009'', Some ''Acme'', Some ''Buyer'', Some ''Website'',
       Some ''High''],
      [Some ''Bo'', Some ''bo@x.com'', Some ''555-0002'']]"

text \<open>A sheet with an invalid row before two rows that share an email (rows 2, 3, 4).\<close>

definition shiftedSheet :: Sheet where
  "shiftedSheet =
     [headerRow,
      [Some ''Zed'', Some ''zed@x.com''],
      [Some ''Ann'', Some ''ann@y.com'', Some ''555-0100''],
      [Some ''Ann Two'', Some ''Ann@Y.com'', Some ''555-0101'']]"

text \<open>
  Three rows with the email of \<open>storedLead\<close>: one without phone, one valid, one valid
  that repeats the email.
\<close>

definition storedEmailSheet :: Sheet where
  "storedEmailSheet =
     [headerRow,
      [Some ''Ann'', Some ''ann@x.com''],
      [Some ''Ann B'', Some ''ann@x.com'', Some ''555-0100''],
      [Some ''Ann C'', Some ''ANN@X.COM'', Some ''555-0101'']]"

text \<open>A create request that repeats the email of \<open>storedLead\<close> in other letter case.\<close>

definition repeatedEmailInput :: CreateLeadInput where
  "repeatedEmailInput =
     \<lparr>name = Some ''Ann Again'', email = Some '' ANN@x.com'', phone = Some ''555-7777'',
      company = None, position = None, source = None, priority = None, noteText = None\<rparr>"


section \<open>The derived lead score\<close>

lemma preSave_table_value:
  assumes "st \<in> set validStatuses" and "st \<noteq> ''Closed-Lost''"
  shows "Some (leadScore (preSave True (d\<lparr>lead_status := st\<rparr>))) = map_of scoreMap st"
  using assms
  by (auto simp add: preSave_def scoreOrDefault_def scoreMap_def validStatuses_def)

lemma preSave_closed_won:
  "leadScore (preSave True (d\<lparr>lead_status := ''Closed-Won''\<rparr>)) = 100"
  by (simp add: preSave_def scoreOrDefault_def scoreMap_def)

text \<open>
  C1. The claim: a save with a modified status sets \<^verbatim>\<open>leadScore\<close> to the table value,
  so \<^verbatim>\<open>Closed-Lost\<close> gives 0. The table does hold 0 for \<^verbatim>\<open>Closed-Lost\<close>, but the hook
  reads it through \<^verbatim>\<open>|| 50\<close>, and 0 is falsy: an admin's update of a stored lead to
  \<^verbatim>\<open>Closed-Lost\<close> succeeds and stores the score 50. The same update to
  \<^verbatim>\<open>Closed-Won\<close> stores 100.
\<close>

theorem C1_closed_lost_gets_50:
  "map_of scoreMap ''Closed-Lost'' = Some 0
   \<and> apiStatus (fst (updateLead adminUser 1 (statusUpdate ''Closed-Lost'') [storedLead])) = 200
   \<and> map (\<lambda>d. (lead_status d, leadScore d))
        (snd (updateLead adminUser 1 (statusUpdate ''Closed-Lost'') [storedLead]))
      = [(''Closed-Lost'', 50)]
   \<and> map (\<lambda>d. (lead_status d, leadScore d))
        (snd (updateLead adminUser 1 (statusUpdate ''Closed-Won'') [storedLead]))
      = [(''Closed-Won'', 100)]"
  by code_simp

section \<open>Row validation\<close>

lemma field_nameErrors: "e \<in> set (nameErrors r i) \<Longrightarrow> field e = ''name''"
  by (auto simp: nameErrors_def split: if_splits)
lemma field_emailErrors: "e \<in> set (emailErrors r i) \<Longrightarrow> field e = ''email''"
  by (auto simp: emailErrors_def split: if_splits)
lemma field_phoneErrors: "e \<in> set (phoneErrors r i) \<Longrightarrow> field e = ''phone''"
  by (auto simp: phoneErrors_def split: if_splits)

lemma filter_none: "(\<And>e. e \<in> set xs \<Longrightarrow> \<not> P e) \<Longrightarrow> filter P xs = []"
  by (induction xs) auto

lemma sourceCheck_snd:
  "snd (sourceCheck r i) = (if truthy (source r) \<and> trim (str (source r)) \<notin> set validSources then [sourceError i] else [])"
  by (simp add: sourceCheck_def Let_def sourceError_def validSources_def)

lemma sourceCheck_fst:
  "fst (sourceCheck r i) = (if truthy (source r) \<and> trim (str (source r)) \<in> set validSources then trim (str (source r)) else ''Import'')"
  by (simp add: sourceCheck_def Let_def)

lemma priorityCheck_snd:
  "snd (priorityCheck r i) = (if truthy (priority r) \<and> trim (str (priority r)) \<notin> set validPriorities then [priorityError i] else [])"
  by (simp add: priorityCheck_def Let_def priorityError_def validPriorities_def)

lemma priorityCheck_fst:
  "fst (priorityCheck r i) = (if truthy (priority r) \<and> trim (str (priority r)) \<in> set validPriorities then trim (str (priority r)) else ''Medium'')"
  by (simp add: priorityCheck_def Let_def)

lemma validate_errs: "errs (validateAndNormalizeLeadRow r i) = rowErrors r i"
  by (simp add: validateAndNormalizeLeadRow_def Let_def rowErrors_def)

lemma validate_isValid: "isValid (validateAndNormalizeLeadRow r i) \<longleftrightarrow> rowErrors r i = []"
  by (simp add: validateAndNormalizeLeadRow_def Let_def rowErrors_def)

lemma validate_lead_iff: "lead (validateAndNormalizeLeadRow r i) \<noteq> None \<longleftrightarrow> rowErrors r i = []"
  by (simp add: validateAndNormalizeLeadRow_def Let_def rowErrors_def)

lemma filter_source_rowErrors:
  "filter (\<lambda>e. field e = ''source'') (rowErrors r i) = snd (sourceCheck r i)"
  unfolding rowErrors_def filter_append
  by (simp add: filter_none field_nameErrors field_emailErrors field_phoneErrors
       sourceCheck_snd priorityCheck_snd sourceError_def priorityError_def)

lemma filter_priority_rowErrors:
  "filter (\<lambda>e. field e = ''priority'') (rowErrors r i) = snd (priorityCheck r i)"
  unfolding rowErrors_def filter_append
  by (simp add: filter_none field_nameErrors field_emailErrors field_phoneErrors
       sourceCheck_snd priorityCheck_snd sourceError_def priorityError_def)

text \<open>
  C9. A supplied source or priority (a non-empty cell) must, after trimming, be equal
  to one of the enum values, character by character; otherwise the row gets exactly
  one error for that field, which lists the allowed values, and is invalid. An absent
  or empty cell gives no error for the field, and the normalized lead carries
  \<^verbatim>\<open>'Import'\<close> or \<^verbatim>\<open>'Medium'\<close>.
\<close>

theorem C9_enum_fields:
  "filter (\<lambda>e. field e = ''source'') (errs (validateAndNormalizeLeadRow r i))
     = (if truthy (source r) \<and> trim (str (source r)) \<notin> set validSources
        then [sourceError i] else [])
   \<and> filter (\<lambda>e. field e = ''priority'') (errs (validateAndNormalizeLeadRow r i))
     = (if truthy (priority r) \<and> trim (str (priority r)) \<notin> set validPriorities
        then [priorityError i] else [])
   \<and> (\<forall>l. lead (validateAndNormalizeLeadRow r i) = Some l \<longrightarrow>
         nl_source l = (if truthy (source r) then trim (str (source r)) else ''Import'')
         \<and> nl_priority l = (if truthy (priority r) then trim (str (priority r)) else ''Medium''))
   \<and> (isValid (validateAndNormalizeLeadRow r i) \<longrightarrow>
         (truthy (source r) \<longrightarrow> trim (str (source r)) \<in> set validSources)
         \<and> (truthy (priority r) \<longrightarrow> trim (str (priority r)) \<in> set validPriorities))"
proof (intro conjI)
  show "filter (\<lambda>e. field e = ''source'') (errs (validateAndNormalizeLeadRow r i))
     = (if truthy (source r) \<and> trim (str (source r)) \<notin> set validSources
        then [sourceError i] else [])"
    by (simp only: validate_errs filter_source_rowErrors sourceCheck_snd)
  show "filter (\<lambda>e. field e = ''priority'') (errs (validateAndNormalizeLeadRow r i))
     = (if truthy (priority r) \<and> trim (str (priority r)) \<notin> set validPriorities
        then [priorityError i] else [])"
    by (simp only: validate_errs filter_priority_rowErrors priorityCheck_snd)
  show "\<forall>l. lead (validateAndNormalizeLeadRow r i) = Some l \<longrightarrow>
         nl_source l = (if truthy (source r) then trim (str (source r)) else ''Import'')
         \<and> nl_priority l = (if truthy (priority r) then trim (str (priority r)) else ''Medium'')"
    by (auto simp add: validateAndNormalizeLeadRow_def Let_def sourceCheck_fst priorityCheck_fst
          sourceCheck_snd priorityCheck_snd split: if_splits)
  show "isValid (validateAndNormalizeLeadRow r i) \<longrightarrow>
         (truthy (source r) \<longrightarrow> trim (str (source r)) \<in> set validSources)
         \<and> (truthy (priority r) \<longrightarrow> trim (str (priority r)) \<in> set validPriorities)"
    by (auto simp add: validate_isValid rowErrors_def sourceCheck_snd priorityCheck_snd split: if_splits)
qed

theorem C9_witness:
  "filter (\<lambda>e. field e = ''source'') (errs (validateAndNormalizeLeadRow badEnumRow 2))
     = [sourceError 2]
   \<and> filter (\<lambda>e. field e = ''priority'') (errs (validateAndNormalizeLeadRow badEnumRow 2))
     = [priorityError 2]
   \<and> map_option (\<lambda>l. (nl_source l, nl_priority l))
       (lead (validateAndNormalizeLeadRow paddedEnumRow 2)) = Some (''Referral'', ''Low'')
   \<and> map_option (\<lambda>l. (nl_source l, nl_priority l))
       (lead (validateAndNormalizeLeadRow noEnumRow 2)) = Some (''Import'', ''Medium'')"
proof -
  have bad: "truthy (source badEnumRow) \<and> trim (str (source badEnumRow)) \<notin> set validSources
             \<and> truthy (priority badEnumRow)
             \<and> trim (str (priority badEnumRow)) \<notin> set validPriorities"
    by code_simp
  have padded: "truthy (source paddedEnumRow) \<and> trim (str (source paddedEnumRow)) = ''Referral''
             \<and> truthy (priority paddedEnumRow) \<and> trim (str (priority paddedEnumRow)) = ''Low''
             \<and> lead (validateAndNormalizeLeadRow paddedEnumRow 2) \<noteq> None"
    by code_simp
  have absent: "\<not> truthy (source noEnumRow) \<and> \<not> truthy (priority noEnumRow)
             \<and> lead (validateAndNormalizeLeadRow noEnumRow 2) \<noteq> None"
    by code_simp
  from C9_enum_fields [of badEnumRow 2] bad
  have 1: "filter (\<lambda>e. field e = ''source'') (errs (validateAndNormalizeLeadRow badEnumRow 2))
             = [sourceError 2]
           \<and> filter (\<lambda>e. field e = ''priority'')
               (errs (validateAndNormalizeLeadRow badEnumRow 2)) = [priorityError 2]"
    by simp
  from C9_enum_fields [of paddedEnumRow 2] padded
  have 2: "map_option (\<lambda>l. (nl_source l, nl_priority l))
       (lead (validateAndNormalizeLeadRow paddedEnumRow 2)) = Some (''Referral'', ''Low'')"
    by auto
  from C9_enum_fields [of noEnumRow 2] absent
  have 3: "map_option (\<lambda>l. (nl_source l, nl_priority l))
       (lead (validateAndNormalizeLeadRow noEnumRow 2)) = Some (''Import'', ''Medium'')"
    by auto
  from 1 2 3 show ?thesis by simp
qed

section \<open>The success flag of the import\<close>

lemma importSheet_success:
  assumes "importSheet req ws store = (res, store')"
  shows "(success res \<longleftrightarrow> httpStatus res = 200)
       \<and> (success res \<longleftrightarrow> \<not> findThrows req \<and> \<not> unlinkThrows req)
       \<and> (success res \<longrightarrow>
            resultMessage res = ''Import completed. ''
               @ showNat (length (leads (data res))) @ '' leads imported successfully.''
            \<and> successfulImports (data res) = int (length (leads (data res))))"
  using assms
  by (auto simp add: importSheet_def Let_def serverError_def split: prod.splits if_splits)

text \<open>
  C10. The answer of \<^verbatim>\<open>importFromExcel\<close> has \<^verbatim>\<open>success: true\<close> exactly when it is the
  200 answer, and that is exactly when a file was uploaded, could be read, has a first
  sheet with a name, and neither the database query nor the final unlink threw. Nothing
  about the rows enters: the flag is true and the message counts the imported leads
  also when every row failed.
\<close>

theorem C10_success_flag:
  assumes "importFromExcel req store = (res, store')"
  shows "(success res \<longleftrightarrow> httpStatus res = 200)
       \<and> (success res \<longleftrightarrow>
            (\<exists>nm ws rest. uploadedFile req = Some (Some ((nm, ws) # rest)) \<and> nm \<noteq> [])
            \<and> \<not> findThrows req \<and> \<not> unlinkThrows req)
       \<and> (success res \<longrightarrow>
            resultMessage res = ''Import completed. ''
               @ showNat (length (leads (data res))) @ '' leads imported successfully.''
            \<and> successfulImports (data res) = int (length (leads (data res))))"
proof (cases "uploadedFile req")
  case None
  with assms show ?thesis by (auto simp add: importFromExcel_def badRequest_def)
next
  case (Some f)
  show ?thesis
  proof (cases f)
    case None
    with Some assms show ?thesis by (auto simp add: importFromExcel_def badRequest_def)
  next
    case (Some wb)
    show ?thesis
    proof (cases wb)
      case Nil
      with Some \<open>uploadedFile req = Some f\<close> assms show ?thesis
        by (auto simp add: importFromExcel_def badRequest_def)
    next
      case (Cons p rest)
      obtain nm ws where p: "p = (nm, ws)" by (cases p)
      show ?thesis
      proof (cases "nm = []")
        case True
        with Cons p Some \<open>uploadedFile req = Some f\<close> assms show ?thesis
          by (auto simp add: importFromExcel_def badRequest_def)
      next
        case False
        with Cons p Some \<open>uploadedFile req = Some f\<close> assms
        have "importSheet req ws store = (res, store')"
          by (simp add: importFromExcel_def)
        from importSheet_success [OF this]
        have a: "success res \<longleftrightarrow> httpStatus res = 200"
          and b: "success res \<longleftrightarrow> \<not> findThrows req \<and> \<not> unlinkThrows req"
          and c: "success res \<longrightarrow>
            resultMessage res = ''Import completed. ''
               @ showNat (length (leads (data res))) @ '' leads imported successfully.''
            \<and> successfulImports (data res) = int (length (leads (data res)))"
          by blast+
        have d: "\<exists>nm ws rest. uploadedFile req = Some (Some ((nm, ws) # rest)) \<and> nm \<noteq> []"
          using False Cons p Some \<open>uploadedFile req = Some f\<close> by blast
        from a b c d show ?thesis by blast
      qed
    qed
  qed
qed

theorem C10_witness:
  "success (fst (importFromExcel (uploadOf allFailSheet) []))
   \<and> resultMessage (fst (importFromExcel (uploadOf allFailSheet) []))
       = ''Import completed. 0 leads imported successfully.''
   \<and> totalRows (data (fst (importFromExcel (uploadOf allFailSheet) []))) = 2
   \<and> successfulImports (data (fst (importFromExcel (uploadOf allFailSheet) []))) = 0
   \<and> failedImports (data (fst (importFromExcel (uploadOf allFailSheet) []))) = 2
   \<and> length (errors (data (fst (importFromExcel (uploadOf allFailSheet) [])))) = 2"
proof -
  let ?out = "importFromExcel (uploadOf allFailSheet) []"
  have req: "(\<exists>nm ws rest. uploadedFile (uploadOf allFailSheet) = Some (Some ((nm, ws) # rest))
                \<and> nm \<noteq> [])
             \<and> \<not> findThrows (uploadOf allFailSheet) \<and> \<not> unlinkThrows (uploadOf allFailSheet)"
    by (simp add: uploadOf_def)
  have counts: "leads (data (fst ?out)) = [] \<and> totalRows (data (fst ?out)) = 2
     \<and> failedImports (data (fst ?out)) = 2 \<and> length (errors (data (fst ?out))) = 2"
    by code_simp
  have sn: "showNat 0 = ''0''" by code_simp
  have run: "?out = (fst ?out, snd ?out)" by simp
  from C10_success_flag [OF run] req have ok: "success (fst ?out)" by blast
  from C10_success_flag [OF run] ok
  have "resultMessage (fst ?out) = ''Import completed. ''
               @ showNat (length (leads (data (fst ?out)))) @ '' leads imported successfully.''
        \<and> successfulImports (data (fst ?out)) = int (length (leads (data (fst ?out))))"
    by blast
  with counts sn ok show ?thesis by simp
qed

section \<open>The field mapper\<close>

lemma js_includes_iff: "js_includes s t \<longleftrightarrow> (\<exists>p q. s = p @ t @ q)"
proof (induction s)
  case Nil
  then show ?case by auto
next
  case (Cons c s)
  show ?case
  proof
    assume "js_includes (c # s) t"
    then consider "take (length t) (c # s) = t" | "js_includes s t" by auto
    then show "\<exists>p q. c # s = p @ t @ q"
    proof cases
      case 1
      then have "c # s = [] @ t @ drop (length t) (c # s)"
        by (metis append_Nil append_take_drop_id)
      then show ?thesis by blast
    next
      case 2
      with Cons obtain p q where "s = p @ t @ q" by blast
      then have "c # s = (c # p) @ t @ q" by simp
      then show ?thesis by blast
    qed
  next
    assume "\<exists>p q. c # s = p @ t @ q"
    then obtain p q where pq: "c # s = p @ t @ q" by blast
    show "js_includes (c # s) t"
    proof (cases p)
      case Nil
      with pq have "take (length t) (c # s) = t" by simp
      then show ?thesis by simp
    next
      case (Cons a p')
      with pq have "s = p' @ t @ q" by simp
      with Cons.IH have "js_includes s t" by blast
      then show ?thesis by simp
    qed
  qed
qed

lemma headerMatches_rules: "headerMatches fld h \<longleftrightarrow> exactMatch fld h \<or> containsMatch fld h"
  by (auto simp add: headerMatches_def exactMatch_def containsMatch_def Let_def)

lemma initializeFieldMappings_filter:
  "initializeFieldMappings leadFields headers =
     map (mappingOf headers)
       (filter (\<lambda>fld. truthy (matchedHeaderOf fld headers) \<or> fieldRequired fld) leadFields)"
proof (induction leadFields)
  case Nil
  show ?case by (simp add: initializeFieldMappings_def)
next
  case (Cons fld flds)
  have e: "(if truthy (matchedHeaderOf fld headers) then str (matchedHeaderOf fld headers) else [])
           = str (matchedHeaderOf fld headers)"
    by (cases "matchedHeaderOf fld headers") auto
  from Cons show ?case
    by (simp add: initializeFieldMappings_def Let_def mappingOf_def e)
qed

text \<open>
  C4, amended. For every field the mapper takes the leftmost header that satisfies any
  of the rules: the rules are tried together, header by header, and an exact match
  further right does not displace a containment match further left. A field gets a
  mapping entry when its header is non-empty or the field is required.
\<close>

theorem C4_leftmost_any_rule:
  "(matchedHeaderOf fld headers = None \<longleftrightarrow> (\<forall>h \<in> set headers. \<not> headerMatches fld h))
   \<and> (\<forall>h. matchedHeaderOf fld headers = Some h \<longleftrightarrow>
         (\<exists>i < length headers. headers ! i = h \<and> headerMatches fld h
                                \<and> (\<forall>j < i. \<not> headerMatches fld (headers ! j))))
   \<and> (\<forall>h. headerMatches fld h \<longleftrightarrow> exactMatch fld h \<or> containsMatch fld h)
   \<and> initializeFieldMappings leadFields headers =
       map (mappingOf headers)
         (filter (\<lambda>fld. truthy (matchedHeaderOf fld headers) \<or> fieldRequired fld) leadFields)"
proof (intro conjI allI)
  show "matchedHeaderOf fld headers = None \<longleftrightarrow> (\<forall>h \<in> set headers. \<not> headerMatches fld h)"
    by (auto simp add: matchedHeaderOf_def find_None_iff)
  show "matchedHeaderOf fld headers = Some h \<longleftrightarrow>
         (\<exists>i < length headers. headers ! i = h \<and> headerMatches fld h
                                \<and> (\<forall>j < i. \<not> headerMatches fld (headers ! j)))" for h
    unfolding matchedHeaderOf_def find_Some_iff by auto
  show "headerMatches fld h \<longleftrightarrow> exactMatch fld h \<or> containsMatch fld h" for h
    by (rule headerMatches_rules)
  show "initializeFieldMappings leadFields headers =
       map (mappingOf headers)
         (filter (\<lambda>fld. truthy (matchedHeaderOf fld headers) \<or> fieldRequired fld) leadFields)"
    by (rule initializeFieldMappings_filter)
qed

theorem C4_witness:
  "matchedHeaderOf nameField twoHeaders = Some ''Company Name''
   \<and> initializeFieldMappings [nameField] twoHeaders
       = [\<lparr>leadField = ''name'', excelColumn = ''Company Name'', isRequired = True,
            defaultValue = None\<rparr>]"
proof -
  have m: "headerMatches nameField ''Company Name''" by code_simp
  have "\<exists>i < length twoHeaders. twoHeaders ! i = ''Company Name''
           \<and> headerMatches nameField ''Company Name''
           \<and> (\<forall>j < i. \<not> headerMatches nameField (twoHeaders ! j))"
    using m by (intro exI [of _ 0]) (simp add: twoHeaders_def)
  with C4_leftmost_any_rule [of nameField twoHeaders "[nameField]"]
  have 1: "matchedHeaderOf nameField twoHeaders = Some ''Company Name''" by blast
  from C4_leftmost_any_rule [of nameField twoHeaders "[nameField]"]
  have "initializeFieldMappings [nameField] twoHeaders =
       map (mappingOf twoHeaders)
         (filter (\<lambda>fld. truthy (matchedHeaderOf fld twoHeaders) \<or> fieldRequired fld) [nameField])"
    by blast
  with 1 show ?thesis by (simp add: mappingOf_def nameField_def)
qed

theorem C4_counterexample:
  "exactMatch nameField ''Name'' \<and> \<not> exactMatch nameField ''Company Name''
   \<and> spec_matchedHeader nameField twoHeaders = Some ''Name''
   \<and> matchedHeaderOf nameField twoHeaders = Some ''Company Name''"
  by code_simp

section \<open>The validation loop\<close>

lemma nameErrors_Nil: "nameErrors r i = [] \<longleftrightarrow> nameErrors r j = []"
  by (simp add: nameErrors_def)
lemma emailErrors_Nil: "emailErrors r i = [] \<longleftrightarrow> emailErrors r j = []"
  by (simp add: emailErrors_def)
lemma phoneErrors_Nil: "phoneErrors r i = [] \<longleftrightarrow> phoneErrors r j = []"
  by (simp add: phoneErrors_def)
lemma sourceCheck_Nil: "snd (sourceCheck r i) = [] \<longleftrightarrow> snd (sourceCheck r j) = []"
  by (simp add: sourceCheck_snd)
lemma priorityCheck_Nil: "snd (priorityCheck r i) = [] \<longleftrightarrow> snd (priorityCheck r j) = []"
  by (simp add: priorityCheck_snd)

lemma rowErrors_Nil: "rowErrors r i = [] \<longleftrightarrow> rowValid r"
  unfolding rowValid_def rowErrors_def append_is_Nil_conv
  using nameErrors_Nil [of r i 0] emailErrors_Nil [of r i 0] phoneErrors_Nil [of r i 0]
    sourceCheck_Nil [of r i 0] priorityCheck_Nil [of r i 0]
  by blast

lemma sourceCheck_fst_index: "fst (sourceCheck r i) = fst (sourceCheck r 0)"
  by (simp add: sourceCheck_fst)
lemma priorityCheck_fst_index: "fst (priorityCheck r i) = fst (priorityCheck r 0)"
  by (simp add: priorityCheck_fst)

lemma validate_cases:
  "validateAndNormalizeLeadRow r i =
     (if rowValid r then \<lparr>isValid = True, lead = Some (normalize r), errs = []\<rparr>
      else \<lparr>isValid = False, lead = None, errs = rowErrors r i\<rparr>)"
proof (cases "rowValid r")
  case True
  then have "rowErrors r i = []" by (simp add: rowErrors_Nil)
  then have "nameErrors r i @ emailErrors r i @ phoneErrors r i
                   @ snd (sourceCheck r i) @ snd (priorityCheck r i) = []"
    by (simp add: rowErrors_def)
  with True show ?thesis
    unfolding validateAndNormalizeLeadRow_def Let_def normalize_def
    by (simp add: sourceCheck_fst_index [of r i] priorityCheck_fst_index [of r i])
next
  case False
  then have "rowErrors r i \<noteq> []" by (simp add: rowErrors_Nil)
  then have "nameErrors r i @ emailErrors r i @ phoneErrors r i
                   @ snd (sourceCheck r i) @ snd (priorityCheck r i) \<noteq> []"
    by (simp add: rowErrors_def)
  with False show ?thesis
    unfolding validateAndNormalizeLeadRow_def Let_def
    by (simp add: rowErrors_def)
qed

lemma validateLoopG_step_valid:
  "rowValid r \<Longrightarrow> validateLoopG (r # rs) i vl og eg
     = validateLoopG rs (Suc i) (vl @ [normalize r]) (og @ [i]) eg"
  by (simp add: validate_cases)

lemma validateLoopG_step_invalid:
  "\<not> rowValid r \<Longrightarrow> validateLoopG (r # rs) i vl og eg
     = validateLoopG rs (Suc i) vl og (eg @ map (Pair i) (rowErrors r (int i + 2)))"
  by (simp add: validate_cases)

lemma validateLoop_step_valid:
  "rowValid r \<Longrightarrow> validateLoop (r # rs) i vl es = validateLoop rs (Suc i) (vl @ [normalize r]) es"
  by (simp add: validate_cases)

lemma validateLoop_step_invalid:
  "\<not> rowValid r \<Longrightarrow> validateLoop (r # rs) i vl es
     = validateLoop rs (Suc i) vl (es @ rowErrors r (int i + 2))"
  by (simp add: validate_cases)

text \<open>The loop of the code is the ghost loop with the tags dropped.\<close>

lemma validateLoopG_erase:
  "validateLoopG rs i vl og eg = (vl', og', eg')
   \<Longrightarrow> validateLoop rs i vl (map snd eg) = (vl', map snd eg')"
proof (induction rs arbitrary: i vl og eg)
  case Nil
  then show ?case by simp
next
  case (Cons r rs)
  show ?case
  proof (cases "rowValid r")
    case True
    from Cons.prems have "validateLoopG rs (Suc i) (vl @ [normalize r]) (og @ [i]) eg = (vl', og', eg')"
      unfolding validateLoopG_step_valid [OF True] .
    from Cons.IH [OF this] show ?thesis unfolding validateLoop_step_valid [OF True] .
  next
    case False
    from Cons.prems
    have "validateLoopG rs (Suc i) vl og (eg @ map (Pair i) (rowErrors r (int i + 2))) = (vl', og', eg')"
      unfolding validateLoopG_step_invalid [OF False] .
    from Cons.IH [OF this] show ?thesis
      unfolding validateLoop_step_invalid [OF False] by (simp add: comp_def)
  qed
qed

text \<open>
  What the ghost loop returns: the valid rows normalized, their indices, and the errors
  of the invalid rows, each tagged with its row.
\<close>

lemma validateLoopG_result:
  "validateLoopG rs i vl og eg =
     (vl @ map normalize (filter rowValid rs),
      og @ map fst (filter (\<lambda>(k, r). rowValid r) (zip [i ..< i + length rs] rs)),
      eg @ concat (map (\<lambda>(k, r). map (Pair k) (rowErrors r (int k + 2)))
                    (filter (\<lambda>(k, r). \<not> rowValid r) (zip [i ..< i + length rs] rs))))"
proof (induction rs arbitrary: i vl og eg)
  case Nil
  then show ?case by simp
next
  case (Cons r rs)
  have z: "zip [i ..< i + length (r # rs)] (r # rs) = (i, r) # zip [Suc i ..< Suc i + length rs] rs"
    by (simp add: upt_conv_Cons del: upt_Suc)
  show ?case
  proof (cases "rowValid r")
    case True
    show ?thesis
      unfolding z validateLoopG_step_valid [OF True] Cons.IH using True by simp
  next
    case False
    show ?thesis
      unfolding z validateLoopG_step_invalid [OF False] Cons.IH using False by simp
  qed
qed

section \<open>The email map and the duplicates within the file\<close>

lemma mapPush_keys:
  "map fst (mapPush m k i) = (if k \<in> set (map fst m) then map fst m else map fst m @ [k])"
  by (induction m k i rule: mapPush.induct) auto

lemma mapPush_distinct: "distinct (map fst m) \<Longrightarrow> distinct (map fst (mapPush m k i))"
  by (simp add: mapPush_keys)

lemma mapPush_map_of:
  "distinct (map fst m) \<Longrightarrow>
   map_of (mapPush m k i) =
     (map_of m)(k \<mapsto> (case map_of m k of None \<Rightarrow> [i] | Some v \<Rightarrow> v @ [i]))"
proof (induction m k i rule: mapPush.induct)
  case (1 k i)
  show ?case by simp
next
  case (2 k' v m k i)
  show ?case
  proof (cases "k' = k")
    case True
    then show ?thesis by auto
  next
    case False
    with 2 show ?thesis by (auto simp add: fun_eq_iff)
  qed
qed

lemma emailMapOf_snoc:
  "emailMapOf (vl @ [l]) = mapPush (emailMapOf vl) (nl_email l) (length vl)"
  by (simp add: emailMapOf_def)

lemma indicesOf_snoc:
  "indicesOf (vl @ [l]) e = indicesOf vl e @ (if nl_email l = e then [length vl] else [])"
proof -
  have "filter (\<lambda>k. nl_email ((vl @ [l]) ! k) = e) [0 ..< length vl]
        = filter (\<lambda>k. nl_email (vl ! k) = e) [0 ..< length vl]"
    by (rule filter_cong) (auto simp add: nth_append)
  then show ?thesis by (simp add: indicesOf_def)
qed

lemma indicesOf_empty: "indicesOf vl e = [] \<longleftrightarrow> e \<notin> nl_email ` set vl"
proof
  assume a: "indicesOf vl e = []"
  show "e \<notin> nl_email ` set vl"
  proof
    assume "e \<in> nl_email ` set vl"
    then obtain k where "k < length vl" "nl_email (vl ! k) = e"
      by (auto simp add: in_set_conv_nth)
    then have "k \<in> set (indicesOf vl e)" by (simp add: indicesOf_def)
    with a show False by simp
  qed
next
  assume "e \<notin> nl_email ` set vl"
  then have "\<forall>k < length vl. nl_email (vl ! k) \<noteq> e" by force
  then show "indicesOf vl e = []" by (simp add: indicesOf_def filter_empty_conv)
qed

lemma emailMapOf_keys_lookup:
  "distinct (map fst (emailMapOf vl))
   \<and> map_of (emailMapOf vl) e
       = (if e \<in> nl_email ` set vl then Some (indicesOf vl e) else None)"
proof (induction vl arbitrary: e rule: rev_induct)
  case Nil
  show ?case by (simp add: emailMapOf_def)
next
  case (snoc l vl)
  have d: "distinct (map fst (emailMapOf vl))" using snoc by blast
  have look: "\<And>e. map_of (emailMapOf vl) e
       = (if e \<in> nl_email ` set vl then Some (indicesOf vl e) else None)"
    using snoc by blast
  have "map_of (emailMapOf (vl @ [l])) e
       = (if e \<in> nl_email ` set (vl @ [l]) then Some (indicesOf (vl @ [l]) e) else None)"
    unfolding emailMapOf_snoc mapPush_map_of [OF d] indicesOf_snoc
    using indicesOf_empty [of vl] by (auto simp add: look)
  moreover have "distinct (map fst (emailMapOf (vl @ [l])))"
    unfolding emailMapOf_snoc by (rule mapPush_distinct [OF d])
  ultimately show ?case by blast
qed

lemma emailMapOf_distinct: "distinct (map fst (emailMapOf vl))"
  using emailMapOf_keys_lookup by blast

lemma emailMapOf_lookup:
  "map_of (emailMapOf vl) e = (if e \<in> nl_email ` set vl then Some (indicesOf vl e) else None)"
  using emailMapOf_keys_lookup by blast

lemma emailMapOf_entry:
  "(e, is) \<in> set (emailMapOf vl) \<longleftrightarrow> e \<in> nl_email ` set vl \<and> is = indicesOf vl e"
proof -
  have "(e, is) \<in> set (emailMapOf vl) \<longleftrightarrow> map_of (emailMapOf vl) e = Some is"
    using emailMapOf_distinct by (simp add: map_of_eq_Some_iff)
  then show ?thesis by (auto simp add: emailMapOf_lookup)
qed

text \<open>The head of a filtered interval is the least index that passes the test.\<close>

lemma filter_upt_Cons:
  "filter P [0 ..< n] = j # js \<Longrightarrow> j < n \<and> P j \<and> (\<forall>i < j. \<not> P i)"
proof (induction n arbitrary: j js)
  case 0
  then show ?case by simp
next
  case (Suc n)
  show ?case
  proof (cases "filter P [0 ..< n]")
    case Nil
    with Suc.prems have "P n \<and> j = n" by (auto split: if_splits)
    moreover from Nil have "\<forall>i < n. \<not> P i" by (auto simp add: filter_empty_conv)
    ultimately show ?thesis by simp
  next
    case (Cons a as)
    with Suc.prems have "j = a" by (auto split: if_splits)
    with Suc.IH [OF Cons] show ?thesis by auto
  qed
qed

lemma set_drop1_filter_upt:
  "set (drop 1 (filter P [0 ..< n])) = {k. k < n \<and> P k \<and> (\<exists>j < k. P j)}"
proof (induction n)
  case 0
  show ?case by simp
next
  case (Suc n)
  show ?case
  proof (cases "filter P [0 ..< n]")
    case Nil
    then have none: "\<forall>i < n. \<not> P i" by (auto simp add: filter_empty_conv)
    have "set (drop 1 (filter P [0 ..< Suc n])) = {}" using Nil by simp
    moreover have "{k. k < Suc n \<and> P k \<and> (\<exists>j < k. P j)} = {}"
      using none by (auto simp add: less_Suc_eq)
    ultimately show ?thesis by simp
  next
    case (Cons a as)
    from filter_upt_Cons [OF Cons] have a: "a < n" "P a" by auto
    have "set (drop 1 (filter P [0 ..< Suc n]))
          = set (drop 1 (filter P [0 ..< n])) \<union> (if P n then {n} else {})"
      using Cons by simp
    also have "\<dots> = {k. k < n \<and> P k \<and> (\<exists>j < k. P j)} \<union> (if P n then {n} else {})"
      by (simp only: Suc.IH)
    also have "\<dots> = {k. k < Suc n \<and> P k \<and> (\<exists>j < k. P j)}"
      using a by (auto simp add: less_Suc_eq)
    finally show ?thesis .
  qed
qed

lemma firstIndexIs_firstOcc:
  assumes "k < length vl"
  shows "firstIndexIs (emailMapOf vl) (nl_email (vl ! k)) k \<longleftrightarrow> firstOcc vl k"
proof -
  let ?e = "nl_email (vl ! k)"
  let ?P = "\<lambda>j. nl_email (vl ! j) = ?e"
  have mem: "?e \<in> nl_email ` set vl" using assms by simp
  have kin: "k \<in> set (indicesOf vl ?e)" using assms by (simp add: indicesOf_def)
  then obtain j js where js: "indicesOf vl ?e = j # js" by (cases "indicesOf vl ?e") auto
  then have f: "filter ?P [0 ..< length vl] = j # js" by (simp add: indicesOf_def)
  from filter_upt_Cons [OF f] have j: "j < length vl" "?P j" "\<forall>i < j. \<not> ?P i" by auto
  have "firstIndexIs (emailMapOf vl) ?e k \<longleftrightarrow> j = k"
    by (simp add: firstIndexIs_def emailMapOf_lookup mem js)
  also have "\<dots> \<longleftrightarrow> firstOcc vl k"
  proof
    assume "j = k"
    with j show "firstOcc vl k" by (simp add: firstOcc_def)
  next
    assume fo: "firstOcc vl k"
    show "j = k"
    proof (rule ccontr)
      assume "j \<noteq> k"
      then consider "j < k" | "k < j" by linarith
      then show False
      proof cases
        case 1
        with fo j(2) show False by (auto simp add: firstOcc_def)
      next
        case 2
        with j(3) show False by auto
      qed
    qed
  qed
  finally show ?thesis .
qed

lemma zip_upt_nth: "zip xs [0 ..< length xs] = map (\<lambda>k. (xs ! k, k)) [0 ..< length xs]"
proof -
  have "zip xs [0 ..< length xs] = zip (map ((!) xs) [0 ..< length xs]) [0 ..< length xs]"
    by (simp only: map_nth)
  also have "\<dots> = map (\<lambda>k. (xs ! k, k)) [0 ..< length xs]"
    by (simp add: zip_map1 zip_same_conv_map)
  finally show ?thesis .
qed

lemma uniqueIndexedOf_firstOcc:
  "uniqueIndexedOf vl (emailMapOf vl)
     = map (\<lambda>k. (vl ! k, k)) (filter (firstOcc vl) [0 ..< length vl])"
proof -
  have "filter (\<lambda>(l, index). firstIndexIs (emailMapOf vl) (nl_email l) index)
          (map (\<lambda>k. (vl ! k, k)) [0 ..< length vl])
        = map (\<lambda>k. (vl ! k, k))
            (filter (\<lambda>k. firstIndexIs (emailMapOf vl) (nl_email (vl ! k)) k) [0 ..< length vl])"
    by (simp add: filter_map comp_def)
  also have "filter (\<lambda>k. firstIndexIs (emailMapOf vl) (nl_email (vl ! k)) k) [0 ..< length vl]
             = filter (firstOcc vl) [0 ..< length vl]"
    by (rule filter_cong) (auto simp add: firstIndexIs_firstOcc)
  finally show ?thesis by (simp add: uniqueIndexedOf_def zip_upt_nth)
qed

lemma uniqueValidLeadsOf_indexed:
  "uniqueValidLeadsOf vl em = map fst (uniqueIndexedOf vl em)"
  by (simp add: uniqueValidLeadsOf_def uniqueIndexedOf_def)

lemma uniqueValidLeadsOf_firstOcc:
  "uniqueValidLeadsOf vl (emailMapOf vl)
     = map (\<lambda>k. vl ! k) (filter (firstOcc vl) [0 ..< length vl])"
  by (simp add: uniqueValidLeadsOf_indexed uniqueIndexedOf_firstOcc comp_def)

lemma duplicateErrorsG_erase: "map snd (duplicateErrorsG og em) = duplicateErrors em"
proof -
  have "\<And>p. map snd (case p of (e, indices) \<Rightarrow>
        if length indices > 1
        then map (\<lambda>index. (og ! index,
                            \<lparr>row = int index + 2, field = ''email'',
                             message = ''Duplicate email within file: '' @ e\<rparr>)) (drop 1 indices)
        else [])
      = (case p of (e, indices) \<Rightarrow>
        if length indices > 1
        then map (\<lambda>index. \<lparr>row = int index + 2, field = ''email'',
                             message = ''Duplicate email within file: '' @ e\<rparr>) (drop 1 indices)
        else [])"
    by (auto simp add: comp_def split: prod.splits)
  then show ?thesis
    by (simp add: duplicateErrorsG_def duplicateErrors_def map_concat comp_def)
qed

lemma drop1_indicesOf:
  "k \<in> set (drop 1 (indicesOf vl e))
   \<longleftrightarrow> k < length vl \<and> nl_email (vl ! k) = e \<and> (\<exists>j < k. nl_email (vl ! j) = e)"
  unfolding indicesOf_def set_drop1_filter_upt by simp

lemma duplicateErrorsG_mem:
  "x \<in> set (duplicateErrorsG og (emailMapOf vl))
   \<longleftrightarrow> (\<exists>k. k < length vl \<and> \<not> firstOcc vl k
            \<and> x = (og ! k, duplicateInFile (int k + 2) (nl_email (vl ! k))))"
proof -
  have branch: "\<And>e is. (if length is > 1
        then map (\<lambda>index. (og ! index,
                            \<lparr>row = int index + 2, field = ''email'',
                             message = ''Duplicate email within file: '' @ e\<rparr>)) (drop 1 is)
        else [])
      = map (\<lambda>index. (og ! index, duplicateInFile (int index + 2) e)) (drop 1 is)"
    by (auto simp add: duplicateInFile_def)
  have mem: "x \<in> set (duplicateErrorsG og (emailMapOf vl))
        \<longleftrightarrow> (\<exists>p \<in> set (emailMapOf vl).
               x \<in> (\<lambda>index. (og ! index, duplicateInFile (int index + 2) (fst p)))
                     ` set (drop 1 (snd p)))"
    unfolding duplicateErrorsG_def branch by (simp add: split_def)
  show ?thesis
  proof
    assume "x \<in> set (duplicateErrorsG og (emailMapOf vl))"
    with mem obtain p k where p: "p \<in> set (emailMapOf vl)"
      and k: "k \<in> set (drop 1 (snd p))"
      and x: "x = (og ! k, duplicateInFile (int k + 2) (fst p))"
      by blast
    from p have "(fst p, snd p) \<in> set (emailMapOf vl)" by simp
    then have "snd p = indicesOf vl (fst p)" by (simp only: emailMapOf_entry)
    with k have kk: "k < length vl \<and> nl_email (vl ! k) = fst p
                 \<and> (\<exists>j < k. nl_email (vl ! j) = fst p)"
      by (simp only: drop1_indicesOf)
    then have "\<not> firstOcc vl k" by (auto simp add: firstOcc_def)
    with kk x have "k < length vl \<and> \<not> firstOcc vl k
            \<and> x = (og ! k, duplicateInFile (int k + 2) (nl_email (vl ! k)))"
      by simp
    then show "\<exists>k. k < length vl \<and> \<not> firstOcc vl k
            \<and> x = (og ! k, duplicateInFile (int k + 2) (nl_email (vl ! k)))" ..
  next
    assume "\<exists>k. k < length vl \<and> \<not> firstOcc vl k
            \<and> x = (og ! k, duplicateInFile (int k + 2) (nl_email (vl ! k)))"
    then obtain k where k: "k < length vl" "\<not> firstOcc vl k"
      and x: "x = (og ! k, duplicateInFile (int k + 2) (nl_email (vl ! k)))" by blast
    let ?e = "nl_email (vl ! k)"
    from k(1) have "?e \<in> nl_email ` set vl" by simp
    then have e: "(?e, indicesOf vl ?e) \<in> set (emailMapOf vl)" by (simp add: emailMapOf_entry)
    from k have "k \<in> set (drop 1 (indicesOf vl ?e))"
      unfolding drop1_indicesOf by (auto simp add: firstOcc_def)
    with x have "x \<in> (\<lambda>index. (og ! index, duplicateInFile (int index + 2) (fst (?e, indicesOf vl ?e))))
                     ` set (drop 1 (snd (?e, indicesOf vl ?e)))"
      by simp
    with e show "x \<in> set (duplicateErrorsG og (emailMapOf vl))"
      unfolding mem by (rule rev_bexI)
  qed
qed

section \<open>Saving a new document\<close>

lemma preSave_keys:
  "lead_email (preSave m d) = lead_email d" "lead_phone (preSave m d) = lead_phone d"
  "lead_id (preSave m d) = lead_id d"
  by (simp_all add: preSave_def)

lemma uniqueViolation_None:
  "uniqueViolation others d = None \<longleftrightarrow>
     (\<forall>x \<in> set others. lead_email x \<noteq> lead_email d \<and> lead_phone x \<noteq> lead_phone d)"
  by (auto simp add: uniqueViolation_def)

lemma saveNew_Inr:
  "saveNew m store d = Inr (s', d') \<longleftrightarrow>
     validateLead (\<lambda>p. True) d = [] \<and> d' = preSave m d \<and> s' = store @ [d']
     \<and> (\<forall>x \<in> set store. lead_email x \<noteq> lead_email d \<and> lead_phone x \<noteq> lead_phone d)"
proof (cases "validateLead (\<lambda>p. True) d")
  case Nil
  show ?thesis
  proof (cases "uniqueViolation store (preSave m d)")
    case None
    with Nil show ?thesis
      using uniqueViolation_None [of store "preSave m d"]
      by (auto simp add: saveNew_def Let_def preSave_keys)
  next
    case (Some e)
    with Nil show ?thesis
      using uniqueViolation_None [of store "preSave m d"]
      by (auto simp add: saveNew_def Let_def preSave_keys)
  qed
next
  case (Cons f fs)
  then show ?thesis by (simp add: saveNew_def)
qed

lemma saveNew_cases:
  obtains (saved) d' where "saveNew m store d = Inr (store @ [d'], d')"
      "lead_email d' = lead_email d" "lead_phone d' = lead_phone d" "lead_id d' = lead_id d"
      "\<forall>x \<in> set store. lead_email x \<noteq> lead_email d \<and> lead_phone x \<noteq> lead_phone d"
    | (failed) e where "saveNew m store d = Inl e"
proof (cases "saveNew m store d")
  case (Inl e)
  then show ?thesis by (rule failed)
next
  case (Inr p)
  obtain s' d' where p: "p = (s', d')" by (cases p)
  with Inr have r: "saveNew m store d = Inr (s', d')" by simp
  then have "validateLead (\<lambda>p. True) d = [] \<and> d' = preSave m d \<and> s' = store @ [d']
     \<and> (\<forall>x \<in> set store. lead_email x \<noteq> lead_email d \<and> lead_phone x \<noteq> lead_phone d)"
    using saveNew_Inr [of m store d s' d'] by blast
  then have f: "d' = preSave m d" "s' = store @ [d']"
    "\<forall>x \<in> set store. lead_email x \<noteq> lead_email d \<and> lead_phone x \<noteq> lead_phone d"
    by blast+
  from r f have "saveNew m store d = Inr (store @ [d'], d')" by simp
  moreover have "lead_email d' = lead_email d" "lead_phone d' = lead_phone d"
    "lead_id d' = lead_id d"
    using f(1) by (simp_all add: preSave_keys)
  ultimately show ?thesis using f(3) by (rule saved)
qed

section \<open>The loop over the unique valid leads\<close>

lemma processLeads_skip:
  "nl_email x \<in> set ex \<Longrightarrow>
   processLeads u ex vl (x # xs) store c es =
   processLeads u ex vl xs store c
     (es @ [duplicateInDatabase (findIndex (\<lambda>l. nl_email l = nl_email x) vl + 2) (nl_email x)])"
  by (simp add: duplicateInDatabase_def)

lemma processLeads_saved:
  "nl_email x \<notin> set ex \<Longrightarrow>
   saveNew True store (new_Lead (freshId store) (importInit x u)) = Inr (store', d) \<Longrightarrow>
   processLeads u ex vl (x # xs) store c es = processLeads u ex vl xs store' (c @ [d]) es"
  by simp

lemma processLeads_failed:
  "nl_email x \<notin> set ex \<Longrightarrow>
   saveNew True store (new_Lead (freshId store) (importInit x u)) = Inl e \<Longrightarrow>
   processLeads u ex vl (x # xs) store c es =
   processLeads u ex vl xs store c
     (es @ [\<lparr>row = findIndex (\<lambda>l. nl_email l = nl_email x) vl + 2, field = ''database'',
             message = errorMessage e\<rparr>])"
  by simp

lemma processLeadsG_skip:
  "nl_email x \<in> set ex \<Longrightarrow>
   processLeadsG u ex vl og ((x, k) # xs) store c rows eg =
   processLeadsG u ex vl og xs store c rows
     (eg @ [(og ! k,
             duplicateInDatabase (findIndex (\<lambda>l. nl_email l = nl_email x) vl + 2) (nl_email x))])"
  by (simp add: duplicateInDatabase_def)

lemma processLeadsG_saved:
  "nl_email x \<notin> set ex \<Longrightarrow>
   saveNew True store (new_Lead (freshId store) (importInit x u)) = Inr (store', d) \<Longrightarrow>
   processLeadsG u ex vl og ((x, k) # xs) store c rows eg =
   processLeadsG u ex vl og xs store' (c @ [d]) (rows @ [og ! k]) eg"
  by simp

lemma processLeadsG_failed:
  "nl_email x \<notin> set ex \<Longrightarrow>
   saveNew True store (new_Lead (freshId store) (importInit x u)) = Inl e \<Longrightarrow>
   processLeadsG u ex vl og ((x, k) # xs) store c rows eg =
   processLeadsG u ex vl og xs store c rows
     (eg @ [(og ! k,
             \<lparr>row = findIndex (\<lambda>l. nl_email l = nl_email x) vl + 2, field = ''database'',
              message = errorMessage e\<rparr>)])"
  by simp

text \<open>The loop of the code is the ghost loop with the tags and the row list dropped.\<close>

lemma processLeadsG_erase:
  "processLeadsG u ex vl og xs store c rows eg = (s', c', rows', eg')
   \<Longrightarrow> processLeads u ex vl (map fst xs) store c (map snd eg) = (s', c', map snd eg')"
proof (induction xs arbitrary: store c rows eg)
  case Nil
  then show ?case by simp
next
  case (Cons p xs)
  obtain x k where p: "p = (x, k)" by (cases p)
  show ?case
  proof (cases "nl_email x \<in> set ex")
    case True
    from Cons.prems have "processLeadsG u ex vl og xs store c rows
        (eg @ [(og ! k, duplicateInDatabase (findIndex (\<lambda>l. nl_email l = nl_email x) vl + 2)
                          (nl_email x))]) = (s', c', rows', eg')"
      unfolding p processLeadsG_skip [OF True] .
    from Cons.IH [OF this] show ?thesis
      unfolding p
      by (simp only: list.map fst_conv snd_conv map_append processLeads_skip [OF True])
  next
    case False
    show ?thesis
    proof (cases "saveNew True store (new_Lead (freshId store) (importInit x u))")
      case (Inl e)
      from Cons.prems have "processLeadsG u ex vl og xs store c rows
        (eg @ [(og ! k, \<lparr>row = findIndex (\<lambda>l. nl_email l = nl_email x) vl + 2,
                         field = ''database'', message = errorMessage e\<rparr>)])
        = (s', c', rows', eg')"
        unfolding p processLeadsG_failed [OF False Inl] .
      from Cons.IH [OF this] show ?thesis
        unfolding p
        by (simp only: list.map fst_conv snd_conv map_append processLeads_failed [OF False Inl])
    next
      case (Inr q)
      obtain st d where q: "q = (st, d)" by (cases q)
      note sv = Inr [unfolded q]
      from Cons.prems have "processLeadsG u ex vl og xs st (c @ [d]) (rows @ [og ! k]) eg
        = (s', c', rows', eg')"
        unfolding p processLeadsG_saved [OF False sv] .
      from Cons.IH [OF this] show ?thesis
        unfolding p
        by (simp only: list.map fst_conv snd_conv map_append processLeads_saved [OF False sv])
    qed
  qed
qed

text \<open>
  Every entry of the list either adds one lead to the collection and to
  \<^verbatim>\<open>createdLeads\<close>, or adds one error; the collection only grows at its end.
\<close>

lemma processLeadsG_trace:
  "processLeadsG u ex vl og xs store c rows eg = (s', c', rows', eg')
   \<Longrightarrow> \<exists>cs fs news. rows' = rows @ map ((!) og) cs
         \<and> map fst eg' = map fst eg @ map ((!) og) fs
         \<and> mset cs + mset fs = mset (map snd xs)
         \<and> c' = c @ news \<and> s' = store @ news \<and> length news = length cs"
proof (induction xs arbitrary: store c rows eg)
  case Nil
  then show ?case by simp
next
  case (Cons p xs)
  obtain x k where p: "p = (x, k)" by (cases p)
  show ?case
  proof (cases "nl_email x \<in> set ex")
    case True
    from Cons.prems have "processLeadsG u ex vl og xs store c rows
        (eg @ [(og ! k, duplicateInDatabase (findIndex (\<lambda>l. nl_email l = nl_email x) vl + 2)
                          (nl_email x))]) = (s', c', rows', eg')"
      unfolding p processLeadsG_skip [OF True] .
    from Cons.IH [OF this] obtain cs fs news where
      "rows' = rows @ map ((!) og) cs" "map fst eg' = map fst eg @ map ((!) og) (k # fs)"
      "mset cs + mset fs = mset (map snd xs)" "c' = c @ news" "s' = store @ news"
      "length news = length cs"
      by auto
    then show ?thesis unfolding p
      by (intro exI [of _ cs] exI [of _ "k # fs"] exI [of _ news]) simp
  next
    case False
    show ?thesis
    proof (cases "saveNew True store (new_Lead (freshId store) (importInit x u))")
      case (Inl e)
      from Cons.prems have "processLeadsG u ex vl og xs store c rows
        (eg @ [(og ! k, \<lparr>row = findIndex (\<lambda>l. nl_email l = nl_email x) vl + 2,
                         field = ''database'', message = errorMessage e\<rparr>)])
        = (s', c', rows', eg')"
        unfolding p processLeadsG_failed [OF False Inl] .
      from Cons.IH [OF this] obtain cs fs news where
        "rows' = rows @ map ((!) og) cs" "map fst eg' = map fst eg @ map ((!) og) (k # fs)"
        "mset cs + mset fs = mset (map snd xs)" "c' = c @ news" "s' = store @ news"
        "length news = length cs"
        by auto
      then show ?thesis unfolding p
        by (intro exI [of _ cs] exI [of _ "k # fs"] exI [of _ news]) simp
    next
      case (Inr q)
      obtain st d where q: "q = (st, d)" by (cases q)
      note sv = Inr [unfolded q]
      from sv have st: "st = store @ [d]" by (simp add: saveNew_Inr)
      from Cons.prems have "processLeadsG u ex vl og xs st (c @ [d]) (rows @ [og ! k]) eg
        = (s', c', rows', eg')"
        unfolding p processLeadsG_saved [OF False sv] .
      from Cons.IH [OF this] obtain cs fs news where
        "rows' = rows @ map ((!) og) (k # cs)" "map fst eg' = map fst eg @ map ((!) og) fs"
        "mset cs + mset fs = mset (map snd xs)" "c' = c @ d # news" "s' = store @ d # news"
        "length news = length cs"
        unfolding st by auto
      then show ?thesis unfolding p
        by (intro exI [of _ "k # cs"] exI [of _ fs] exI [of _ "d # news"]) simp
    qed
  qed
qed

section \<open>Counting the rows of an import\<close>

lemma zip_upt_nth2: "zip [0 ..< length xs] xs = map (\<lambda>k. (k, xs ! k)) [0 ..< length xs]"
proof -
  have "zip [0 ..< length xs] xs = zip [0 ..< length xs] (map ((!) xs) [0 ..< length xs])"
    by (simp only: map_nth)
  also have "\<dots> = map (\<lambda>k. (k, xs ! k)) [0 ..< length xs]"
    by (simp add: zip_map2 zip_same_conv_map)
  finally show ?thesis .
qed

lemma validation_phase:
  assumes "validateLoopG jd 0 [] [] [] = (vl, og, e1)"
  shows "og = filter (\<lambda>k. rowValid (jd ! k)) [0 ..< length jd]"
    and "vl = map (\<lambda>k. normalize (jd ! k)) og"
    and "fst ` set e1 = {k. k < length jd \<and> \<not> rowValid (jd ! k)}"
    and "\<forall>(k, e) \<in> set e1. row e = int k + 2"
proof -
  let ?n = "length jd"
  from assms have vl: "vl = map normalize (filter rowValid jd)"
    and og: "og = map fst (filter (\<lambda>(k, r). rowValid r) (zip [0 ..< ?n] jd))"
    and e1: "e1 = concat (map (\<lambda>(k, r). map (Pair k) (rowErrors r (int k + 2)))
                    (filter (\<lambda>(k, r). \<not> rowValid r) (zip [0 ..< ?n] jd)))"
    by (simp_all add: validateLoopG_result)
  show 1: "og = filter (\<lambda>k. rowValid (jd ! k)) [0 ..< ?n]"
    unfolding og zip_upt_nth2 by (simp add: filter_map comp_def)
  have "filter rowValid jd = filter rowValid (map ((!) jd) [0 ..< ?n])"
    by (simp only: map_nth)
  also have "\<dots> = map ((!) jd) (filter (\<lambda>k. rowValid (jd ! k)) [0 ..< ?n])"
    by (simp add: filter_map comp_def)
  finally show "vl = map (\<lambda>k. normalize (jd ! k)) og"
    unfolding vl 1 by simp
  have e1': "e1 = concat (map (\<lambda>k. map (Pair k) (rowErrors (jd ! k) (int k + 2)))
                    (filter (\<lambda>k. \<not> rowValid (jd ! k)) [0 ..< ?n]))"
    unfolding e1 zip_upt_nth2 by (simp add: filter_map comp_def)
  show "fst ` set e1 = {k. k < ?n \<and> \<not> rowValid (jd ! k)}"
  proof (intro set_eqI iffI)
    fix k assume "k \<in> fst ` set e1"
    then show "k \<in> {k. k < ?n \<and> \<not> rowValid (jd ! k)}"
      unfolding e1' by auto
  next
    fix k assume "k \<in> {k. k < ?n \<and> \<not> rowValid (jd ! k)}"
    then have k: "k < ?n" "\<not> rowValid (jd ! k)" by auto
    then have "rowErrors (jd ! k) (int k + 2) \<noteq> []" by (simp add: rowErrors_Nil)
    then obtain e where "e \<in> set (rowErrors (jd ! k) (int k + 2))"
      by (cases "rowErrors (jd ! k) (int k + 2)") auto
    with k have "(k, e) \<in> set e1" unfolding e1' by auto
    then show "k \<in> fst ` set e1" by force
  qed
  have rows: "\<And>r i e. e \<in> set (rowErrors r i) \<Longrightarrow> row e = i"
    by (auto simp add: rowErrors_def nameErrors_def emailErrors_def phoneErrors_def
          sourceCheck_snd priorityCheck_snd sourceError_def priorityError_def
          split: if_splits)
  show "\<forall>(k, e) \<in> set e1. row e = int k + 2"
    unfolding e1' using rows by auto
qed


lemma mset_partition_sets:
  assumes "mset cs + mset fs = mset xs" and "distinct xs"
  shows "set cs \<union> set fs = set xs" and "set cs \<inter> set fs = {}" and "distinct cs"
proof -
  from assms(1) have m: "mset (cs @ fs) = mset xs" by simp
  then have s: "set (cs @ fs) = set xs" by (rule mset_eq_setD)
  from m assms(2) have d: "distinct (cs @ fs)" by (metis mset_eq_imp_distinct_iff)
  from s show "set cs \<union> set fs = set xs" by simp
  from d show "set cs \<inter> set fs = {}" and "distinct cs" by auto
qed

text \<open>
  The rows of \<^verbatim>\<open>jsonData\<close> split into the rows whose lead was created and the rows
  that produced an error.
\<close>

lemma importTrace_partition:
  assumes "importTrace req sheet store = (rows, eg)"
  shows "distinct rows"
    and "fst ` set eg \<union> set rows = {..< length (jsonDataOf sheet)}"
    and "fst ` set eg \<inter> set rows = {}"
proof -
  let ?jd = "jsonDataOf sheet"
  let ?n = "length ?jd"
  obtain vl og e1 where v: "validateLoopG ?jd 0 [] [] [] = (vl, og, e1)"
    by (cases "validateLoopG ?jd 0 [] [] []") auto
  let ?em = "emailMapOf vl"
  let ?m = "length vl"
  obtain s' c' rows' e3 where
    p: "processLeadsG (userId req) (existingEmailsOf store (uniqueValidLeadsOf vl ?em)) vl og
          (uniqueIndexedOf vl ?em) store [] [] (e1 @ duplicateErrorsG og ?em)
        = (s', c', rows', e3)"
    by (cases "processLeadsG (userId req) (existingEmailsOf store (uniqueValidLeadsOf vl ?em))
          vl og (uniqueIndexedOf vl ?em) store [] [] (e1 @ duplicateErrorsG og ?em)") auto
  from assms v p have r: "rows = rows'" "eg = e3"
    by (simp_all add: importTrace_def Let_def)
  note ph = validation_phase [OF v]
  have len: "length og = ?m" using ph(2) by simp
  have dog: "distinct og" using ph(1) by simp
  have sog: "set og = {k. k < ?n \<and> rowValid (?jd ! k)}" using ph(1) by auto
  have inj: "inj_on ((!) og) {..< ?m}"
    using dog len by (simp add: inj_on_nth)
  have img: "(!) og ` {..< ?m} = set og"
    using len by (auto simp add: set_conv_nth)
  from processLeadsG_trace [OF p] obtain cs fs news where
    t: "rows' = map ((!) og) cs"
       "map fst e3 = map fst (e1 @ duplicateErrorsG og ?em) @ map ((!) og) fs"
       "mset cs + mset fs = mset (map snd (uniqueIndexedOf vl ?em))"
    by auto
  have ui: "map snd (uniqueIndexedOf vl ?em) = filter (firstOcc vl) [0 ..< ?m]"
    by (simp add: uniqueIndexedOf_firstOcc comp_def)
  have dfirst: "distinct (filter (firstOcc vl) [0 ..< ?m])" by simp
  note parts = mset_partition_sets [OF t(3) [unfolded ui] dfirst]
  have first: "set cs \<union> set fs = {k. k < ?m \<and> firstOcc vl k}" using parts(1) by auto
  have sub: "set cs \<subseteq> {..< ?m}" "set fs \<subseteq> {..< ?m}" using first by auto
  have dup: "fst ` set (duplicateErrorsG og ?em) = (!) og ` {k. k < ?m \<and> \<not> firstOcc vl k}"
  proof (intro set_eqI iffI)
    fix a assume "a \<in> fst ` set (duplicateErrorsG og ?em)"
    then obtain x where "x \<in> set (duplicateErrorsG og ?em)" "a = fst x" by blast
    then show "a \<in> (!) og ` {k. k < ?m \<and> \<not> firstOcc vl k}"
      unfolding duplicateErrorsG_mem by auto
  next
    fix a assume "a \<in> (!) og ` {k. k < ?m \<and> \<not> firstOcc vl k}"
    then obtain k where k: "k < ?m" "\<not> firstOcc vl k" "a = og ! k" by blast
    then have "(og ! k, duplicateInFile (int k + 2) (nl_email (vl ! k)))
               \<in> set (duplicateErrorsG og ?em)"
      unfolding duplicateErrorsG_mem by blast
    with k(3) show "a \<in> fst ` set (duplicateErrorsG og ?em)" by force
  qed
  have tags: "fst ` set e3 = {k. k < ?n \<and> \<not> rowValid (?jd ! k)}
                \<union> (!) og ` {k. k < ?m \<and> \<not> firstOcc vl k} \<union> (!) og ` set fs"
  proof -
    have "fst ` set e3 = set (map fst e3)" by simp
    also have "\<dots> = fst ` set e1 \<union> fst ` set (duplicateErrorsG og ?em) \<union> (!) og ` set fs"
      unfolding t(2) by (simp add: image_Un Un_assoc)
    finally show ?thesis unfolding ph(3) dup .
  qed
  have rws: "set rows' = (!) og ` set cs" unfolding t(1) by simp
  show "distinct rows"
    unfolding r t(1) distinct_map
    using parts(3) inj sub(1) by (auto intro: inj_on_subset)
  have all_idx: "{k. k < ?m \<and> \<not> firstOcc vl k} \<union> set fs \<union> set cs = {..< ?m}"
    using first by auto
  have "fst ` set e3 \<union> set rows'
        = {k. k < ?n \<and> \<not> rowValid (?jd ! k)}
          \<union> (!) og ` ({k. k < ?m \<and> \<not> firstOcc vl k} \<union> set fs \<union> set cs)"
    unfolding tags rws by (simp add: image_Un Un_assoc)
  also have "\<dots> = {k. k < ?n \<and> \<not> rowValid (?jd ! k)} \<union> set og"
    unfolding all_idx img ..
  also have "\<dots> = {..< ?n}" unfolding sog by auto
  finally show "fst ` set eg \<union> set rows = {..< ?n}" unfolding r .
  have d1: "{k. k < ?n \<and> \<not> rowValid (?jd ! k)} \<inter> (!) og ` set cs = {}"
    using sub(1) img sog by blast
  have d2: "(!) og ` {k. k < ?m \<and> \<not> firstOcc vl k} \<inter> (!) og ` set cs = {}"
  proof -
    have "{k. k < ?m \<and> \<not> firstOcc vl k} \<inter> set cs = {}" using first by auto
    moreover have "{k. k < ?m \<and> \<not> firstOcc vl k} \<subseteq> {..< ?m}" by auto
    ultimately show ?thesis using inj sub(1) by (metis inj_on_image_Int image_empty)
  qed
  have d3: "(!) og ` set fs \<inter> (!) og ` set cs = {}"
    using inj sub parts(2) by (metis inj_on_image_Int image_empty inf_commute)
  show "fst ` set eg \<inter> set rows = {}"
    unfolding r tags rws using d1 d2 d3 by blast
qed


lemma importSheet_trace:
  assumes "importSheet req sheet store = (res, store')" and "httpStatus res = 200"
  shows "map snd (snd (importTrace req sheet store)) = errors (data res)"
    and "length (fst (importTrace req sheet store)) = length (leads (data res))"
    and "totalRows (data res) = int (length (jsonDataOf sheet))"
    and "successfulImports (data res) = int (length (leads (data res)))"
    and "failedImports (data res) = totalRows (data res) - successfulImports (data res)"
    and "store' = store @ leads (data res)"
proof -
  let ?jd = "jsonDataOf sheet"
  obtain vl og e1 where v: "validateLoopG ?jd 0 [] [] [] = (vl, og, e1)"
    by (cases "validateLoopG ?jd 0 [] [] []") auto
  let ?em = "emailMapOf vl"
  let ?ex = "existingEmailsOf store (uniqueValidLeadsOf vl ?em)"
  obtain s' c' rows' e3 where
    p: "processLeadsG (userId req) ?ex vl og
          (uniqueIndexedOf vl ?em) store [] [] (e1 @ duplicateErrorsG og ?em)
        = (s', c', rows', e3)"
    by (cases "processLeadsG (userId req) ?ex
          vl og (uniqueIndexedOf vl ?em) store [] [] (e1 @ duplicateErrorsG og ?em)") auto
  have tr: "importTrace req sheet store = (rows', e3)"
    using v p by (simp add: importTrace_def Let_def)
  from validateLoopG_erase [OF v] have v': "validateLoop ?jd 0 [] [] = (vl, map snd e1)" by simp
  from processLeadsG_erase [OF p]
  have p': "processLeads (userId req) ?ex vl (uniqueValidLeadsOf vl ?em) store []
              (map snd e1 @ duplicateErrors ?em) = (s', c', map snd e3)"
    by (simp add: uniqueValidLeadsOf_indexed duplicateErrorsG_erase)
  from processLeadsG_trace [OF p] obtain cs news where
    n: "rows' = map ((!) og) cs" "c' = news" "s' = store @ news" "length news = length cs"
    by auto
  have thr: "\<not> findThrows req" "\<not> unlinkThrows req"
    using assms by (auto simp add: importSheet_def Let_def serverError_def v' p'
                      split: if_splits)
  from assms(1) thr have res: "res = \<lparr>httpStatus = 200, success = True,
       resultMessage = ''Import completed. '' @ showNat (length c')
                       @ '' leads imported successfully.'',
       topErrors = [],
       data = \<lparr>totalRows = int (length ?jd), successfulImports = int (length c'),
                failedImports = int (length ?jd) - int (length c'),
                errors = map snd e3, leads = c'\<rparr>\<rparr>"
    and st: "store' = s'"
    by (auto simp add: importSheet_def Let_def v' p')
  show "map snd (snd (importTrace req sheet store)) = errors (data res)"
    by (simp add: tr res)
  show "length (fst (importTrace req sheet store)) = length (leads (data res))"
    by (simp add: tr res n)
  show "totalRows (data res) = int (length (jsonDataOf sheet))" by (simp add: res)
  show "successfulImports (data res) = int (length (leads (data res)))" by (simp add: res)
  show "failedImports (data res) = totalRows (data res) - successfulImports (data res)"
    by (simp add: res)
  show "store' = store @ leads (data res)" by (simp add: res st n)
qed

lemma importFromExcel_cases:
  assumes "importFromExcel req store = (res, store')"
  obtains (rejected) "httpStatus res = 400" "data res = emptyData" "store' = store"
    | (ran) "importSheet req (firstSheet req) store = (res, store')"
proof (cases "uploadedFile req")
  case None
  with assms have "httpStatus res = 400" "data res = emptyData" "store' = store"
    by (auto simp add: importFromExcel_def badRequest_def)
  then show ?thesis by (rule rejected)
next
  case (Some f)
  show ?thesis
  proof (cases f)
    case None
    with Some assms have "httpStatus res = 400" "data res = emptyData" "store' = store"
      by (auto simp add: importFromExcel_def badRequest_def)
    then show ?thesis by (rule rejected)
  next
    case (Some wb)
    note f = this
    show ?thesis
    proof (cases wb)
      case Nil
      with f \<open>uploadedFile req = Some f\<close> assms
      have "httpStatus res = 400" "data res = emptyData" "store' = store"
        by (auto simp add: importFromExcel_def badRequest_def)
      then show ?thesis by (rule rejected)
    next
      case (Cons p rest)
      obtain nm ws where p: "p = (nm, ws)" by (cases p)
      show ?thesis
      proof (cases "nm = []")
        case True
        with Cons p f \<open>uploadedFile req = Some f\<close> assms
        have "httpStatus res = 400" "data res = emptyData" "store' = store"
          by (auto simp add: importFromExcel_def badRequest_def)
        then show ?thesis by (rule rejected)
      next
        case False
        with Cons p f \<open>uploadedFile req = Some f\<close> assms
        have "importSheet req (firstSheet req) store = (res, store')"
          by (simp add: importFromExcel_def firstSheet_def)
        then show ?thesis by (rule ran)
      qed
    qed
  qed
qed




text \<open>
  C2. The claim: \<^verbatim>\<open>totalRows\<close> counts all non-empty parsed data rows, the two counters
  add up to it, and a row is failed exactly when it produced an error. The filter of
  line 186 stands under the comment \<^verbatim>\<open>Filter out completely empty rows\<close>, but its test
  is \<^verbatim>\<open>row.name || row.email\<close>: a row without name and email is dropped whatever its
  other cells hold. The first data row of the sample has a phone, a company, a
  position, a source and a priority; the second is a complete lead. The import
  completes and reports one row, one lead imported, no failure and no error: the first
  row is neither counted nor imported nor reported as failed.
\<close>

theorem C2_row_with_data_dropped:
  "map toRow (drop 1 namelessSheet)
     = [\<lparr>name = None, email = None, phone = Some ''555-0009'', company = Some ''Acme'',
         position = Some ''Buyer'', source = Some ''Website'', priority = Some ''High''\<rparr>,
        \<lparr>name = Some ''Bo'', email = Some ''bo@x.com'', phone = Some ''555-0002'',
         company = None, position = None, source = None, priority = None\<rparr>]
   \<and> jsonDataOf namelessSheet
     = [\<lparr>name = Some ''Bo'', email = Some ''bo@x.com'', phone = Some ''555-0002'',
         company = None, position = None, source = None, priority = None\<rparr>]
   \<and> httpStatus (fst (importFromExcel (uploadOf namelessSheet) [])) = 200
   \<and> totalRows (data (fst (importFromExcel (uploadOf namelessSheet) []))) = 1
   \<and> successfulImports (data (fst (importFromExcel (uploadOf namelessSheet) []))) = 1
   \<and> failedImports (data (fst (importFromExcel (uploadOf namelessSheet) []))) = 0
   \<and> errors (data (fst (importFromExcel (uploadOf namelessSheet) []))) = []
   \<and> map lead_name (snd (importFromExcel (uploadOf namelessSheet) [])) = [''Bo'']"
  by code_simp

text \<open>
  C3. The claim: every error carries the spreadsheet row of the offending row. The
  validation loop numbers a row by its index in \<^verbatim>\<open>jsonData\<close> plus 2, but the later
  phases number it by an index in \<^verbatim>\<open>validLeads\<close> plus 2, and \<^verbatim>\<open>validLeads\<close> has lost
  the invalid rows. In the sample the rows at spreadsheet rows 5, 3 and 6 are reported
  as rows 4, 2 and 5: each triple is the spreadsheet row of the row that produced the
  error, the reported row, and the field.
\<close>

theorem C3_reported_rows_shift:
  "map (\<lambda>(k, e). (int k + 2, row e, field e))
     (snd (importTrace (uploadOf mixedSheet) mixedSheet [storedLead]))
     = [(2, 2, ''phone''), (5, 4, ''email''), (3, 2, ''email''), (6, 5, ''database'')]
   \<and> map row (errors (data (fst (importFromExcel (uploadOf mixedSheet) [storedLead]))))
     = [2, 4, 2, 5]"
  by code_simp

text \<open>
  C6. The claim: a later occurrence of an email becomes a duplicate-within-file error
  carrying its row number and the email. The error carries the email, but its row is
  the index in \<^verbatim>\<open>validLeads\<close> plus 2: with an invalid row before them, the second of
  two rows sharing an email sits in spreadsheet row 4 (index 2 of \<^verbatim>\<open>jsonData\<close>) and is
  reported as row 3, the row of the first occurrence, which is imported.
\<close>

theorem C6_duplicate_row_number:
  "snd (importTrace (uploadOf shiftedSheet) shiftedSheet [])
     = [(0, \<lparr>row = 2, field = ''phone'', message = ''Phone is required''\<rparr>),
        (2, duplicateInFile 3 ''ann@y.com'')]
   \<and> fst (importTrace (uploadOf shiftedSheet) shiftedSheet []) = [1]
   \<and> map lead_name (leads (data (fst (importFromExcel (uploadOf shiftedSheet) []))))
     = [''Ann'']
   \<and> errors (data (fst (importFromExcel (uploadOf shiftedSheet) [])))
     = [\<lparr>row = 2, field = ''phone'', message = ''Phone is required''\<rparr>,
        duplicateInFile 3 ''ann@y.com'']"
  by code_simp

section \<open>Normalized emails stay as they are\<close>












section \<open>What the loop over the unique valid leads does to the collection\<close>

lemma processLeads_step:
  "processLeads u ex vl (x # xs) S c es =
     (if nl_email x \<in> set ex
      then processLeads u ex vl xs S c (es @ [duplicateInDatabase (reportedRow vl x) (nl_email x)])
      else (case saveNew True S (importDoc S x u) of
              Inr (S', d) \<Rightarrow> processLeads u ex vl xs S' (c @ [d]) es
            | Inl e \<Rightarrow> processLeads u ex vl xs S c (es @ [persistenceError (reportedRow vl x) e])))"
  by (auto simp add: duplicateInDatabase_def persistenceError_def importDoc_def reportedRow_def
        split: sum.splits)

text \<open>An induction rule that follows the three ways an iteration can go.\<close>

lemma processLeads_induct [case_names finished skip saved failed]:
  assumes finished: "\<And>S c es. P [] S c es (S, c, es)"
    and skip: "\<And>x xs S c es R. nl_email x \<in> set ex \<Longrightarrow>
         P xs S c (es @ [duplicateInDatabase (reportedRow vl x) (nl_email x)]) R \<Longrightarrow>
         P (x # xs) S c es R"
    and saved: "\<And>x xs S c es d R. nl_email x \<notin> set ex \<Longrightarrow>
         saveNew True S (importDoc S x u) = Inr (S @ [d], d) \<Longrightarrow>
         P xs (S @ [d]) (c @ [d]) es R \<Longrightarrow> P (x # xs) S c es R"
    and failed: "\<And>x xs S c es e R. nl_email x \<notin> set ex \<Longrightarrow>
         saveNew True S (importDoc S x u) = Inl e \<Longrightarrow>
         P xs S c (es @ [persistenceError (reportedRow vl x) e]) R \<Longrightarrow> P (x # xs) S c es R"
  shows "P xs S c es (processLeads u ex vl xs S c es)"
proof (induction xs arbitrary: S c es)
  case Nil
  show ?case by (simp add: finished)
next
  case (Cons x xs)
  show ?case
  proof (cases "nl_email x \<in> set ex")
    case True
    have "P (x # xs) S c es
            (processLeads u ex vl xs S c
               (es @ [duplicateInDatabase (reportedRow vl x) (nl_email x)]))"
      using True Cons.IH by (rule skip)
    then show ?thesis by (simp only: processLeads_step True if_True)
  next
    case False
    show ?thesis
    proof (cases rule: saveNew_cases [of True S "importDoc S x u"])
      case (saved d)
      have "P (x # xs) S c es (processLeads u ex vl xs (S @ [d]) (c @ [d]) es)"
        using False saved(1) Cons.IH by (rule assms(3))
      then show ?thesis
        by (simp only: processLeads_step False if_False saved(1) sum.case prod.case)
    next
      case (failed e)
      have "P (x # xs) S c es
              (processLeads u ex vl xs S c (es @ [persistenceError (reportedRow vl x) e]))"
        using False failed Cons.IH by (rule assms(4))
      then show ?thesis
        by (simp only: processLeads_step False if_False failed sum.case)
    qed
  qed
qed

lemma freshId_greater: "x \<in> set store \<Longrightarrow> lead_id x < freshId store"
  by (induction store) (auto simp add: freshId_def)

lemma new_Lead_keys:
  "lead_id (new_Lead oid i) = oid" "lead_email (new_Lead oid i) = setEmail (i_email i)"
  "lead_phone (new_Lead oid i) = setPhone (i_phone i)"
  by (simp_all add: new_Lead_def)

lemma importDoc_keys:
  "lead_id (importDoc S x u) = freshId S" "lead_email (importDoc S x u) = setEmail (nl_email x)"
  "lead_phone (importDoc S x u) = setPhone (nl_phone x)"
  by (simp_all add: importDoc_def new_Lead_keys importInit_def)

lemma saveNew_fresh_uniqueKeys:
  assumes "uniqueKeys S" and "saveNew m S d = Inr (S', d')" and "lead_id d = freshId S"
  shows "uniqueKeys S'"
proof -
  from assms(2) have s: "S' = S @ [d']" and d: "d' = preSave m d"
    and u: "\<forall>x \<in> set S. lead_email x \<noteq> lead_email d \<and> lead_phone x \<noteq> lead_phone d"
    by (simp_all add: saveNew_Inr)
  have "lead_id d' \<notin> lead_id ` set S"
  proof
    assume "lead_id d' \<in> lead_id ` set S"
    then obtain y where y: "y \<in> set S" "lead_id y = lead_id d'" by auto
    from freshId_greater [OF y(1)] y(2) assms(3) d show False by (simp add: preSave_keys)
  qed
  moreover have "lead_email d' \<notin> lead_email ` set S" "lead_phone d' \<notin> lead_phone ` set S"
    using u d by (auto simp add: preSave_keys)
  ultimately show ?thesis using assms(1) by (simp add: uniqueKeys_def s)
qed

text \<open>The loop only appends: the leads it created, in order, and nothing else.\<close>

lemma processLeads_appends:
  "case processLeads u ex vl xs S c es of
     (S', c', es') \<Rightarrow> \<exists>news more. S' = S @ news \<and> c' = c @ news \<and> es' = es @ more"
  by (induction rule: processLeads_induct) auto

lemma processLeads_uniqueKeys:
  "uniqueKeys S \<longrightarrow> (case processLeads u ex vl xs S c es of (S', c', es') \<Rightarrow> uniqueKeys S')"
proof (induction rule: processLeads_induct)
  case (saved x xs S c es d R)
  have "uniqueKeys S \<Longrightarrow> uniqueKeys (S @ [d])"
    using saveNew_fresh_uniqueKeys [OF _ saved(2)] by (simp add: importDoc_keys)
  with saved(3) show ?case by blast
qed auto


text \<open>
  A created lead carries the email of one of the processed leads, passed through the
  schema's setter, and shares neither email nor phone with a lead that was stored
  before.
\<close>

lemma processLeads_created:
  "case processLeads u ex vl xs S c es of
     (S', c', es') \<Rightarrow>
        \<exists>news. S' = S @ news \<and> c' = c @ news \<and>
          (\<forall>d \<in> set news.
             (\<exists>x \<in> set xs. nl_email x \<notin> set ex \<and> lead_email d = setEmail (nl_email x))
             \<and> lead_email d \<notin> lead_email ` set S \<and> lead_phone d \<notin> lead_phone ` set S)"
proof (induction rule: processLeads_induct)
  case (saved x xs S c es d R)
  obtain S' c' es' where R: "R = (S', c', es')" by (cases R)
  from saved(2) have d: "d = preSave True (importDoc S x u)"
    and u: "\<forall>y \<in> set S. lead_email y \<noteq> lead_email (importDoc S x u)
                       \<and> lead_phone y \<noteq> lead_phone (importDoc S x u)"
    by (simp_all add: saveNew_Inr)
  have de: "lead_email d = setEmail (nl_email x)" by (simp add: d preSave_keys importDoc_keys)
  have fresh: "lead_email d \<notin> lead_email ` set S" "lead_phone d \<notin> lead_phone ` set S"
    using u by (auto simp add: d preSave_keys)
  from saved(3) obtain news where
    n: "S' = (S @ [d]) @ news" "c' = (c @ [d]) @ news"
       "\<forall>y \<in> set news.
          (\<exists>x \<in> set xs. nl_email x \<notin> set ex \<and> lead_email y = setEmail (nl_email x))
          \<and> lead_email y \<notin> lead_email ` set (S @ [d])
          \<and> lead_phone y \<notin> lead_phone ` set (S @ [d])"
    unfolding R by auto
  have "S' = S @ (d # news) \<and> c' = c @ (d # news) \<and>
          (\<forall>y \<in> set (d # news).
             (\<exists>x \<in> set (x # xs). nl_email x \<notin> set ex \<and> lead_email y = setEmail (nl_email x))
             \<and> lead_email y \<notin> lead_email ` set S \<and> lead_phone y \<notin> lead_phone ` set S)"
    using n saved(1) de fresh by auto
  then show ?case unfolding R by blast
next
  case (skip x xs S c es R)
  then show ?case by (cases R) auto
next
  case (failed x xs S c es e R)
  then show ?case by (cases R) auto
qed simp

section \<open>Rows whose email is stored already\<close>

lemma existingEmailsOf_mem:
  "e \<in> set (existingEmailsOf store us) \<longleftrightarrow> e \<in> lead_email ` set store \<and> e \<in> nl_email ` set us"
  by (auto simp add: existingEmailsOf_def)

lemma processLeadsG_reports_existing:
  "processLeadsG u ex vl og xs S c rows eg = (S', c', rows', eg') \<Longrightarrow>
   set eg \<subseteq> set eg' \<and>
   (\<forall>(x, i) \<in> set xs. nl_email x \<in> set ex \<longrightarrow>
      (og ! i, duplicateInDatabase (reportedRow vl x) (nl_email x)) \<in> set eg')"
proof (induction xs arbitrary: S c rows eg)
  case Nil
  then show ?case by simp
next
  case (Cons p xs)
  obtain x k where p: "p = (x, k)" by (cases p)
  show ?case
  proof (cases "nl_email x \<in> set ex")
    case True
    from Cons.prems have "processLeadsG u ex vl og xs S c rows
        (eg @ [(og ! k, duplicateInDatabase (findIndex (\<lambda>l. nl_email l = nl_email x) vl + 2)
                          (nl_email x))]) = (S', c', rows', eg')"
      unfolding p processLeadsG_skip [OF True] .
    from Cons.IH [OF this] show ?thesis
      unfolding p by (auto simp add: reportedRow_def)
  next
    case False
    show ?thesis
    proof (cases "saveNew True S (new_Lead (freshId S) (importInit x u))")
      case (Inl e)
      from Cons.prems have "processLeadsG u ex vl og xs S c rows
        (eg @ [(og ! k, \<lparr>row = findIndex (\<lambda>l. nl_email l = nl_email x) vl + 2,
                         field = ''database'', message = errorMessage e\<rparr>)])
        = (S', c', rows', eg')"
        unfolding p processLeadsG_failed [OF False Inl] .
      from Cons.IH [OF this] False show ?thesis unfolding p by auto
    next
      case (Inr q)
      obtain st d where q: "q = (st, d)" by (cases q)
      note sv = Inr [unfolded q]
      from Cons.prems have "processLeadsG u ex vl og xs st (c @ [d]) (rows @ [og ! k]) eg
        = (S', c', rows', eg')"
        unfolding p processLeadsG_saved [OF False sv] .
      from Cons.IH [OF this] False show ?thesis unfolding p by auto
    qed
  qed
qed

text \<open>The parts of a traced import, named.\<close>

lemma importTrace_parts:
  obtains vl og e1 S' c' rows e3 where
    "validateLoopG (jsonDataOf sheet) 0 [] [] [] = (vl, og, e1)"
    "processLeadsG (userId req)
       (existingEmailsOf store (uniqueValidLeadsOf vl (emailMapOf vl))) vl og
       (uniqueIndexedOf vl (emailMapOf vl)) store [] []
       (e1 @ duplicateErrorsG og (emailMapOf vl)) = (S', c', rows, e3)"
    "importTrace req sheet store = (rows, e3)"
proof -
  obtain vl og e1 where v: "validateLoopG (jsonDataOf sheet) 0 [] [] [] = (vl, og, e1)"
    by (cases "validateLoopG (jsonDataOf sheet) 0 [] [] []") auto
  obtain S' c' rows e3 where
    p: "processLeadsG (userId req)
       (existingEmailsOf store (uniqueValidLeadsOf vl (emailMapOf vl))) vl og
       (uniqueIndexedOf vl (emailMapOf vl)) store [] []
       (e1 @ duplicateErrorsG og (emailMapOf vl)) = (S', c', rows, e3)"
    by (cases "processLeadsG (userId req)
       (existingEmailsOf store (uniqueValidLeadsOf vl (emailMapOf vl))) vl og
       (uniqueIndexedOf vl (emailMapOf vl)) store [] []
       (e1 @ duplicateErrorsG og (emailMapOf vl))") auto
  have "importTrace req sheet store = (rows, e3)"
    using v p by (simp add: importTrace_def Let_def)
  with v p show ?thesis by (rule that)
qed

text \<open>The least index with a given email is a first occurrence.\<close>

lemma first_occurrence_exists:
  assumes "i < length vl"
  obtains i0 where "i0 \<le> i" "nl_email (vl ! i0) = nl_email (vl ! i)" "firstOcc vl i0"
proof -
  let ?P = "\<lambda>j. nl_email (vl ! j) = nl_email (vl ! i)"
  define i0 where "i0 = (LEAST j. ?P j)"
  have P: "?P i0" unfolding i0_def by (rule LeastI [of ?P i]) simp
  have le: "i0 \<le> i" unfolding i0_def by (rule Least_le) simp
  have "firstOcc vl i0"
    unfolding firstOcc_def
  proof (intro allI impI)
    fix j assume "j < i0"
    then have "\<not> ?P j" unfolding i0_def by (rule not_less_Least)
    with P show "nl_email (vl ! j) \<noteq> nl_email (vl ! i0)" by simp
  qed
  with le P show ?thesis by (rule that)
qed

text \<open>
  A traced import tags the already-exists error of an email with the first valid row
  that carries the email.
\<close>

lemma importTrace_existing:
  assumes v: "validateLoopG (jsonDataOf sheet) 0 [] [] [] = (vl, og, e1)"
    and p: "processLeadsG u
       (existingEmailsOf store (uniqueValidLeadsOf vl (emailMapOf vl))) vl og
       (uniqueIndexedOf vl (emailMapOf vl)) store [] []
       (e1 @ duplicateErrorsG og (emailMapOf vl)) = (S', c', rows, e3)"
    and i: "i < length vl" "firstOcc vl i"
    and e: "nl_email (vl ! i) \<in> lead_email ` set store"
  shows "(og ! i, duplicateInDatabase (reportedRow vl (vl ! i)) (nl_email (vl ! i))) \<in> set e3"
proof -
  let ?em = "emailMapOf vl"
  have mem: "(vl ! i, i) \<in> set (uniqueIndexedOf vl ?em)"
    using i by (auto simp add: uniqueIndexedOf_firstOcc)
  then have "vl ! i \<in> set (uniqueValidLeadsOf vl ?em)"
    unfolding uniqueValidLeadsOf_indexed by force
  with e have "nl_email (vl ! i) \<in> set (existingEmailsOf store (uniqueValidLeadsOf vl ?em))"
    by (simp add: existingEmailsOf_mem)
  with processLeadsG_reports_existing [OF p] mem show ?thesis by blast
qed


lemma importSheet_created_fresh:
  assumes "importSheet req sheet store = (res, store')" and "httpStatus res = 200"
  shows "\<forall>d \<in> set (leads (data res)).
           lead_email d \<notin> lead_email ` set store \<and> lead_phone d \<notin> lead_phone ` set store"
proof -
  obtain vl es1 where v: "validateLoop (jsonDataOf sheet) 0 [] [] = (vl, es1)"
    by (cases "validateLoop (jsonDataOf sheet) 0 [] []") auto
  let ?em = "emailMapOf vl"
  let ?run = "processLeads (userId req)
        (existingEmailsOf store (uniqueValidLeadsOf vl ?em)) vl (uniqueValidLeadsOf vl ?em)
        store [] (es1 @ duplicateErrors ?em)"
  obtain S' c' es3 where p: "?run = (S', c', es3)" by (cases ?run) auto
  have thr: "\<not> findThrows req" "\<not> unlinkThrows req"
    using assms by (auto simp add: importSheet_def Let_def serverError_def v p split: if_splits)
  with assms(1) have l: "leads (data res) = c'"
    by (auto simp add: importSheet_def Let_def v p)
  have "case ?run of (S', c', es') \<Rightarrow>
        \<exists>news. S' = store @ news \<and> c' = [] @ news \<and>
          (\<forall>d \<in> set news.
             (\<exists>x \<in> set (uniqueValidLeadsOf vl ?em).
                 nl_email x \<notin> set (existingEmailsOf store (uniqueValidLeadsOf vl ?em))
                 \<and> lead_email d = setEmail (nl_email x))
             \<and> lead_email d \<notin> lead_email ` set store
             \<and> lead_phone d \<notin> lead_phone ` set store)"
    by (rule processLeads_created)
  then obtain news where "c' = news" "\<forall>d \<in> set news.
      lead_email d \<notin> lead_email ` set store \<and> lead_phone d \<notin> lead_phone ` set store"
    unfolding p by auto
  with l show ?thesis by simp
qed

section \<open>Importing the same file again\<close>



lemma saveNew_Inl_iff:
  "(\<exists>e. saveNew m S d = Inl e) \<longleftrightarrow>
     validateLead (\<lambda>p. True) d \<noteq> [] \<or> uniqueViolation S (preSave m d) \<noteq> None"
  by (auto simp add: saveNew_def Let_def split: list.splits option.splits)










section \<open>Uniqueness of email and phone\<close>

lemma importSheet_store:
  "\<exists>news. snd (importSheet req sheet store) = store @ news
     \<and> (uniqueKeys store \<longrightarrow> uniqueKeys (store @ news))
     \<and> (\<forall>d \<in> set news. lead_email d \<notin> lead_email ` set store
                          \<and> lead_phone d \<notin> lead_phone ` set store)"
proof -
  obtain vl es1 where v: "validateLoop (jsonDataOf sheet) 0 [] [] = (vl, es1)"
    by (cases "validateLoop (jsonDataOf sheet) 0 [] []") auto
  let ?em = "emailMapOf vl"
  let ?run = "processLeads (userId req)
        (existingEmailsOf store (uniqueValidLeadsOf vl ?em)) vl (uniqueValidLeadsOf vl ?em)
        store [] (es1 @ duplicateErrors ?em)"
  obtain S' c' es3 where p: "?run = (S', c', es3)" by (cases ?run) auto
  have "case ?run of (S', c', es') \<Rightarrow>
        \<exists>news. S' = store @ news \<and> c' = [] @ news \<and>
          (\<forall>d \<in> set news.
             (\<exists>x \<in> set (uniqueValidLeadsOf vl ?em).
                 nl_email x \<notin> set (existingEmailsOf store (uniqueValidLeadsOf vl ?em))
                 \<and> lead_email d = setEmail (nl_email x))
             \<and> lead_email d \<notin> lead_email ` set store
             \<and> lead_phone d \<notin> lead_phone ` set store)"
    by (rule processLeads_created)
  then obtain news where n: "S' = store @ news"
    "\<forall>d \<in> set news. lead_email d \<notin> lead_email ` set store
                     \<and> lead_phone d \<notin> lead_phone ` set store"
    unfolding p by auto
  have "uniqueKeys store \<longrightarrow> (case ?run of (S', c', es') \<Rightarrow> uniqueKeys S')"
    by (rule processLeads_uniqueKeys)
  then have u: "uniqueKeys store \<longrightarrow> uniqueKeys S'" unfolding p by simp
  have "snd (importSheet req sheet store) = store \<or> snd (importSheet req sheet store) = S'"
    by (simp add: importSheet_def Let_def v p)
  then show ?thesis
  proof
    assume "snd (importSheet req sheet store) = store"
    then show ?thesis by (intro exI [of _ "[]"]) simp
  next
    assume "snd (importSheet req sheet store) = S'"
    with n u show ?thesis by (intro exI [of _ news]) simp
  qed
qed

lemma importFromExcel_store:
  "\<exists>news. snd (importFromExcel req store) = store @ news
     \<and> (uniqueKeys store \<longrightarrow> uniqueKeys (store @ news))
     \<and> (\<forall>d \<in> set news. lead_email d \<notin> lead_email ` set store
                          \<and> lead_phone d \<notin> lead_phone ` set store)"
proof -
  have "snd (importFromExcel req store) = store
        \<or> snd (importFromExcel req store) = snd (importSheet req (firstSheet req) store)"
    by (auto simp add: importFromExcel_def firstSheet_def split: option.splits list.splits)
  then show ?thesis
  proof
    assume "snd (importFromExcel req store) = store"
    then show ?thesis by (intro exI [of _ "[]"]) simp
  next
    assume "snd (importFromExcel req store) = snd (importSheet req (firstSheet req) store)"
    with importSheet_store [of req "firstSheet req" store] show ?thesis by simp
  qed
qed

subsection \<open>Manual create\<close>

lemma find_email_hit:
  "(\<exists>x \<in> set store. P x) \<longleftrightarrow> find P store \<noteq> None"
  by (auto simp add: find_None_iff)

lemma createLead_outcomes:
  "(snd (createLead user leadData store) = store
      \<and> \<not> apiSuccess (fst (createLead user leadData store)))
   \<or> (\<exists>d l. saveNew False store l = Inr (store @ [d], d) \<and> lead_id l = freshId store
          \<and> lead_email l = setEmail (str (email leadData))
          \<and> lead_phone l = setPhone (str (phone leadData))
          \<and> snd (createLead user leadData store) = store @ [d])"
proof -
  let ?l0 = "new_Lead (freshId store) (createInit leadData (uid user))"
  let ?l1 = "if truthy (noteText leadData)
             then ?l0\<lparr>lead_notes := lead_notes ?l0 @ [trim (str (noteText leadData))]\<rparr>
             else ?l0"
  have keys: "lead_id ?l1 = freshId store" "lead_email ?l1 = setEmail (str (email leadData))"
    "lead_phone ?l1 = setPhone (str (phone leadData))"
    by (simp_all add: new_Lead_keys createInit_def)
  show ?thesis
  proof (cases rule: saveNew_cases [of False store ?l1])
    case (saved d)
    then show ?thesis
      using keys
      by (auto simp add: createLead_def Let_def duplicateDetected_def
            split: option.splits)
  next
    case (failed e)
    then show ?thesis
      by (auto simp add: createLead_def Let_def duplicateDetected_def saveFailed_def
            split: option.splits)
  qed
qed


lemma createLead_collision:
  assumes "\<exists>x \<in> set store. lead_email x = setEmail (str (email leadData))
                            \<or> lead_phone x = setPhone (str (phone leadData))"
  shows "snd (createLead user leadData store) = store"
    and "\<not> apiSuccess (fst (createLead user leadData store))"
    and "truthy (name leadData) \<and> truthy (email leadData) \<and> truthy (phone leadData) \<longrightarrow>
           apiStatus (fst (createLead user leadData store)) = 400
           \<and> apiMessage (fst (createLead user leadData store)) = ''Duplicate lead detected''"
proof -
  let ?byEmail = "find (\<lambda>d. lead_email d = trim (toLowerCase (str (email leadData)))) store"
  let ?byPhone = "find (\<lambda>d. lead_phone d = trim (str (phone leadData))) store"
  from assms have hit: "?byEmail \<noteq> None \<or> ?byPhone \<noteq> None"
    unfolding find_None_iff setEmail_def setPhone_def by blast
  have all: "snd (createLead user leadData store) = store
       \<and> \<not> apiSuccess (fst (createLead user leadData store))
       \<and> (truthy (name leadData) \<and> truthy (email leadData) \<and> truthy (phone leadData) \<longrightarrow>
           apiStatus (fst (createLead user leadData store)) = 400
           \<and> apiMessage (fst (createLead user leadData store)) = ''Duplicate lead detected'')"
  proof (cases "truthy (name leadData) \<and> truthy (email leadData) \<and> truthy (phone leadData)")
    case False
    then show ?thesis by (auto simp add: createLead_def Let_def)
  next
    case True
    then have none: "filter (\<lambda>(f, v). \<not> truthy v)
              [(''name'', name leadData), (''email'', email leadData),
               (''phone'', phone leadData)] = []"
      by simp
    show ?thesis
    proof (cases ?byEmail)
      case (Some existingEmail)
      then show ?thesis
        unfolding createLead_def Let_def none by (simp add: duplicateDetected_def)
    next
      case None
      with hit obtain existingPhone where "?byPhone = Some existingPhone" by auto
      with None show ?thesis
        unfolding createLead_def Let_def none by (simp add: duplicateDetected_def)
    qed
  qed
  from all show "snd (createLead user leadData store) = store"
    and "\<not> apiSuccess (fst (createLead user leadData store))"
    and "truthy (name leadData) \<and> truthy (email leadData) \<and> truthy (phone leadData) \<longrightarrow>
           apiStatus (fst (createLead user leadData store)) = 400
           \<and> apiMessage (fst (createLead user leadData store)) = ''Duplicate lead detected''"
    by blast+
qed

lemma createLead_uniqueKeys:
  assumes "uniqueKeys store"
  shows "uniqueKeys (snd (createLead user leadData store))"
    and "\<exists>news. snd (createLead user leadData store) = store @ news"
proof -
  from createLead_outcomes [of user leadData store]
  consider "snd (createLead user leadData store) = store"
    | d l where "saveNew False store l = Inr (store @ [d], d)" "lead_id l = freshId store"
        "snd (createLead user leadData store) = store @ [d]"
    by blast
  then have "uniqueKeys (snd (createLead user leadData store))
             \<and> (\<exists>news. snd (createLead user leadData store) = store @ news)"
  proof cases
    case 1
    with assms show ?thesis by simp
  next
    case 2
    from saveNew_fresh_uniqueKeys [OF assms 2(1) 2(2)] 2(3) show ?thesis by simp
  qed
  then show "uniqueKeys (snd (createLead user leadData store))"
    and "\<exists>news. snd (createLead user leadData store) = store @ news" by blast+
qed

subsection \<open>Update\<close>

lemma assignFields_id: "lead_id (assignFields updateData l) = lead_id l"
  by (simp add: assignFields_def)

lemma saveExisting_Inr:
  "saveExisting store old d = Inr (s', d') \<longleftrightarrow>
     validateLead (\<lambda>p. True) d = []
     \<and> d' = preSave (lead_status d \<noteq> lead_status old) d
     \<and> uniqueViolationUpdate (filter (\<lambda>x. lead_id x \<noteq> lead_id d') store) old d' = None
     \<and> s' = map (\<lambda>x. if lead_id x = lead_id d' then d' else x) store"
  by (auto simp add: saveExisting_def Let_def split: list.splits option.splits)

lemma uniqueViolationUpdate_None:
  "uniqueViolationUpdate others old d = None \<longleftrightarrow>
     (lead_email d = lead_email old \<or> (\<forall>x \<in> set others. lead_email x \<noteq> lead_email d))
     \<and> (lead_phone d = lead_phone old \<or> (\<forall>x \<in> set others. lead_phone x \<noteq> lead_phone d))"
  by (auto simp add: uniqueViolationUpdate_def)

text \<open>
  Replacing the document with a given id keeps a key distinct when no other document
  holds the new key.
\<close>

lemma replace_keeps_distinct:
  assumes ids: "distinct (map lead_id store)" and keys: "distinct (map key store)"
    and other: "\<forall>x \<in> set store. lead_id x \<noteq> i \<longrightarrow> key x \<noteq> key d"
  shows "distinct (map key (map (\<lambda>x. if lead_id x = i then d else x) store))"
  using assms
proof (induction store)
  case Nil
  show ?case by simp
next
  case (Cons a store)
  have IH: "distinct (map key (map (\<lambda>x. if lead_id x = i then d else x) store))"
    using Cons by simp
  show ?case
  proof (cases "lead_id a = i")
    case True
    with Cons.prems(1) have "i \<notin> lead_id ` set store" by simp
    then have rest: "\<forall>x \<in> set store. lead_id x \<noteq> i" by blast
    then have same: "map (\<lambda>x. if lead_id x = i then d else x) store = store"
      by (simp add: map_idI)
    have "key d \<notin> key ` set store" using rest Cons.prems(3) by auto
    with True same Cons.prems(2) show ?thesis by simp
  next
    case False
    have notin: "key a \<notin> set (map key (map (\<lambda>x. if lead_id x = i then d else x) store))"
    proof
      assume "key a \<in> set (map key (map (\<lambda>x. if lead_id x = i then d else x) store))"
      then obtain x where x: "x \<in> set store"
        "key a = key (if lead_id x = i then d else x)" by auto
      show False
      proof (cases "lead_id x = i")
        case True
        with x(2) False Cons.prems(3) show False by auto
      next
        case False
        with x Cons.prems(2) show False by auto
      qed
    qed
    have "map key (map (\<lambda>x. if lead_id x = i then d else x) (a # store))
          = key a # map key (map (\<lambda>x. if lead_id x = i then d else x) store)"
      using False by simp
    with notin IH show ?thesis by (simp only: distinct.simps) simp
  qed
qed

lemma saveExisting_uniqueKeys:
  assumes u: "uniqueKeys store" and l: "l \<in> set store" and id: "lead_id d = lead_id l"
    and s: "saveExisting store l d = Inr (s', d')"
  shows "uniqueKeys s'" and "map lead_id s' = map lead_id store"
    and "\<forall>x \<in> set store. lead_id x \<noteq> lead_id l \<longrightarrow> x \<in> set s'"
proof -
  let ?i = "lead_id l"
  from s have d': "d' = preSave (lead_status d \<noteq> lead_status l) d"
    and v: "uniqueViolationUpdate (filter (\<lambda>x. lead_id x \<noteq> lead_id d') store) l d' = None"
    and s': "s' = map (\<lambda>x. if lead_id x = lead_id d' then d' else x) store"
    unfolding saveExisting_Inr by blast+
  have i: "lead_id d' = ?i" by (simp add: d' preSave_keys id)
  from u have ids: "distinct (map lead_id store)" and em: "distinct (map lead_email store)"
    and ph: "distinct (map lead_phone store)" by (simp_all add: uniqueKeys_def)
  have only: "x = l" if "x \<in> set store" "lead_id x = ?i" for x
    using ids l that by (meson distinct_map inj_onD)
  have e: "\<forall>x \<in> set store. lead_id x \<noteq> ?i \<longrightarrow> lead_email x \<noteq> lead_email d'"
  proof (intro ballI impI)
    fix x assume x: "x \<in> set store" "lead_id x \<noteq> ?i"
    from v consider "lead_email d' = lead_email l"
      | "\<forall>y \<in> set (filter (\<lambda>x. lead_id x \<noteq> lead_id d') store). lead_email y \<noteq> lead_email d'"
      unfolding uniqueViolationUpdate_None by blast
    then show "lead_email x \<noteq> lead_email d'"
    proof cases
      case 1
      have "lead_email x \<noteq> lead_email l"
        using em x l by (metis distinct_map inj_onD)
      with 1 show ?thesis by simp
    next
      case 2
      with x i show ?thesis by simp
    qed
  qed
  have p: "\<forall>x \<in> set store. lead_id x \<noteq> ?i \<longrightarrow> lead_phone x \<noteq> lead_phone d'"
  proof (intro ballI impI)
    fix x assume x: "x \<in> set store" "lead_id x \<noteq> ?i"
    from v consider "lead_phone d' = lead_phone l"
      | "\<forall>y \<in> set (filter (\<lambda>x. lead_id x \<noteq> lead_id d') store). lead_phone y \<noteq> lead_phone d'"
      unfolding uniqueViolationUpdate_None by blast
    then show "lead_phone x \<noteq> lead_phone d'"
    proof cases
      case 1
      have "lead_phone x \<noteq> lead_phone l"
        using ph x l by (metis distinct_map inj_onD)
      with 1 show ?thesis by simp
    next
      case 2
      with x i show ?thesis by simp
    qed
  qed
  have idsame: "map lead_id s' = map lead_id store"
    unfolding s' i by (induction store) (auto simp add: i)
  show "map lead_id s' = map lead_id store" by (rule idsame)
  show "uniqueKeys s'"
    unfolding uniqueKeys_def idsame
    using ids replace_keeps_distinct [OF ids em e] replace_keeps_distinct [OF ids ph p]
    by (simp add: s' i)
  show "\<forall>x \<in> set store. lead_id x \<noteq> lead_id l \<longrightarrow> x \<in> set s'"
    unfolding s' i by force
qed

lemma saveFailed_not_success: "\<not> apiSuccess (saveFailed what e)"
  by (simp add: saveFailed_def duplicateDetected_def split: option.splits)

lemma updateLead_outcomes:
  "(snd (updateLead user leadId updateData store) = store
      \<and> \<not> apiSuccess (fst (updateLead user leadId updateData store)))
   \<or> (\<exists>l d'. l \<in> set store \<and> lead_id l = leadId
          \<and> saveExisting store l (assignFields updateData l)
              = Inr (snd (updateLead user leadId updateData store), d'))"
proof (cases "find (\<lambda>d. lead_id d = leadId) store")
  case None
  then show ?thesis by (simp add: updateLead_def)
next
  case (Some l)
  then have l: "l \<in> set store" "lead_id l = leadId"
    by (auto simp add: find_Some_iff)
  show ?thesis
  proof (cases "saveExisting store l (assignFields updateData l)")
    case (Inl e)
    with Some show ?thesis
      by (auto simp add: updateLead_def duplicateDetected_def saveFailed_not_success
            split: option.splits)
  next
    case (Inr q)
    obtain s' d' where q: "q = (s', d')" by (cases q)
    have "snd (updateLead user leadId updateData store) = store
            \<and> \<not> apiSuccess (fst (updateLead user leadId updateData store))
          \<or> snd (updateLead user leadId updateData store) = s'"
      using Some Inr q
      by (auto simp add: updateLead_def duplicateDetected_def split: option.splits)
    then show ?thesis
    proof
      assume "snd (updateLead user leadId updateData store) = store
            \<and> \<not> apiSuccess (fst (updateLead user leadId updateData store))"
      then show ?thesis ..
    next
      assume "snd (updateLead user leadId updateData store) = s'"
      with Inr q l show ?thesis by auto
    qed
  qed
qed

lemma updateLead_uniqueKeys:
  assumes "uniqueKeys store"
  shows "uniqueKeys (snd (updateLead user leadId updateData store))"
    and "map lead_id (snd (updateLead user leadId updateData store)) = map lead_id store"
    and "\<forall>x \<in> set store. lead_id x \<noteq> leadId \<longrightarrow>
           x \<in> set (snd (updateLead user leadId updateData store))"
proof -
  let ?s = "snd (updateLead user leadId updateData store)"
  from updateLead_outcomes [of user leadId updateData store]
  consider "?s = store"
    | l d' where "l \<in> set store" "lead_id l = leadId"
        "saveExisting store l (assignFields updateData l) = Inr (?s, d')"
    by blast
  then have "uniqueKeys ?s \<and> map lead_id ?s = map lead_id store
             \<and> (\<forall>x \<in> set store. lead_id x \<noteq> leadId \<longrightarrow> x \<in> set ?s)"
  proof cases
    case 1
    with assms show ?thesis by simp
  next
    case 2
    from saveExisting_uniqueKeys [OF assms 2(1) assignFields_id 2(3)] 2(2)
    show ?thesis by simp
  qed
  then show "uniqueKeys ?s" and "map lead_id ?s = map lead_id store"
    and "\<forall>x \<in> set store. lead_id x \<noteq> leadId \<longrightarrow> x \<in> set ?s" by blast+
qed

lemma updateLead_collision:
  assumes "(truthy (email updateData)
              \<and> (\<exists>x \<in> set store. lead_id x \<noteq> leadId
                     \<and> lead_email x = setEmail (str (email updateData))))
           \<or> (truthy (phone updateData)
              \<and> (\<exists>x \<in> set store. lead_id x \<noteq> leadId
                     \<and> lead_phone x = setPhone (str (phone updateData))))"
  shows "snd (updateLead user leadId updateData store) = store
       \<and> \<not> apiSuccess (fst (updateLead user leadId updateData store))
       \<and> (\<forall>l. find (\<lambda>d. lead_id d = leadId) store = Some l
               \<and> (role user = ''admin'' \<or> String_of (assignedTo l) = String_of (uid user)) \<longrightarrow>
             apiStatus (fst (updateLead user leadId updateData store)) = 400
             \<and> apiMessage (fst (updateLead user leadId updateData store))
                 = ''Duplicate lead detected'')"
proof -
  let ?byEmail = "if truthy (email updateData)
                  then find (\<lambda>d. lead_email d = trim (toLowerCase (str (email updateData)))
                                   \<and> lead_id d \<noteq> leadId) store
                  else None"
  let ?byPhone = "if truthy (phone updateData)
                  then find (\<lambda>d. lead_phone d = trim (str (phone updateData))
                                   \<and> lead_id d \<noteq> leadId) store
                  else None"
  have found: "find P store \<noteq> None" if "\<exists>x \<in> set store. P x" for P :: "Lead \<Rightarrow> bool"
    using that by (auto simp add: find_None_iff)
  from assms consider
      "truthy (email updateData)"
      "\<exists>x \<in> set store. lead_email x = trim (toLowerCase (str (email updateData)))
                         \<and> lead_id x \<noteq> leadId"
    | "truthy (phone updateData)"
      "\<exists>x \<in> set store. lead_phone x = trim (str (phone updateData)) \<and> lead_id x \<noteq> leadId"
    unfolding setEmail_def setPhone_def by blast
  then have hit: "?byEmail \<noteq> None \<or> ?byPhone \<noteq> None"
  proof cases
    case 1
    from found [OF 1(2)] 1(1) show ?thesis by simp
  next
    case 2
    from found [OF 2(2)] 2(1) show ?thesis by simp
  qed
  show ?thesis
  proof (cases "find (\<lambda>d. lead_id d = leadId) store")
    case None
    then show ?thesis by (simp add: updateLead_def)
  next
    case (Some l)
    show ?thesis
    proof (cases "role user \<noteq> ''admin'' \<and> String_of (assignedTo l) \<noteq> String_of (uid user)")
      case True
      with Some show ?thesis by (auto simp add: updateLead_def)
    next
      case False
      show ?thesis
      proof (cases ?byEmail)
        case (Some existingEmail)
        with \<open>find (\<lambda>d. lead_id d = leadId) store = Some l\<close> False show ?thesis
          unfolding updateLead_def by (simp add: duplicateDetected_def)
      next
        case None
        with hit obtain existingPhone where "?byPhone = Some existingPhone" by auto
        with None \<open>find (\<lambda>d. lead_id d = leadId) store = Some l\<close> False show ?thesis
          unfolding updateLead_def by (simp add: duplicateDetected_def)
      qed
    qed
  qed
qed

subsection \<open>All three writes\<close>

lemma find_by_id:
  assumes "distinct (map lead_id store)" and "l \<in> set store"
  shows "find (\<lambda>d. lead_id d = lead_id l) store = Some l"
proof -
  from assms(2) have "find (\<lambda>d. lead_id d = lead_id l) store \<noteq> None"
    by (auto simp add: find_None_iff)
  then obtain l' where f: "find (\<lambda>d. lead_id d = lead_id l) store = Some l'" by auto
  then have "l' \<in> set store" "lead_id l' = lead_id l" by (auto simp add: find_Some_iff)
  with assms have "l' = l" by (meson distinct_map inj_onD)
  with f show ?thesis by simp
qed

lemma saveNew_collision:
  assumes "\<exists>x \<in> set store. lead_email x = lead_email d \<or> lead_phone x = lead_phone d"
  shows "\<exists>e. saveNew m store d = Inl e"
    and "validateLead (\<lambda>p. True) d = [] \<longrightarrow> (\<exists>f v. saveNew m store d = Inl (DuplicateKey f v))"
proof -
  from assms have "\<exists>f v. uniqueViolation store (preSave m d) = Some (DuplicateKey f v)"
    by (auto simp add: uniqueViolation_def preSave_keys)
  then obtain f v where v: "uniqueViolation store (preSave m d) = Some (DuplicateKey f v)"
    by blast
  then show "\<exists>e. saveNew m store d = Inl e" unfolding saveNew_Inl_iff by simp
  from v show "validateLead (\<lambda>p. True) d = [] \<longrightarrow>
                 (\<exists>f v. saveNew m store d = Inl (DuplicateKey f v))"
    by (auto simp add: saveNew_def Let_def)
qed

text \<open>
  C5. In a collection without shared ids, emails or phones, each of the three writes
  leaves no two leads with the same email or phone. A manual create and an import only
  append leads, none of them with an email or phone that was stored before; an update
  changes at most the lead with the given id. A create or update whose normalized
  email or phone belongs to another stored lead changes nothing and does not succeed;
  when the request gets past the presence, existence and access checks, the answer is
  400 \<^verbatim>\<open>Duplicate lead detected\<close>. A \<^verbatim>\<open>save()\<close> of a new document whose email or phone is
  stored fails, with the duplicate-key error when the document is valid.
\<close>

theorem C5_unique_email_phone:
  assumes "uniqueKeys store"
  shows "(uniqueKeys (snd (createLead user leadData store))
          \<and> (\<exists>news. snd (createLead user leadData store) = store @ news)
          \<and> ((\<exists>x \<in> set store. lead_email x = setEmail (str (email leadData))
                                 \<or> lead_phone x = setPhone (str (phone leadData))) \<longrightarrow>
               snd (createLead user leadData store) = store
               \<and> \<not> apiSuccess (fst (createLead user leadData store))
               \<and> (truthy (name leadData) \<and> truthy (email leadData) \<and> truthy (phone leadData)
                    \<longrightarrow> apiStatus (fst (createLead user leadData store)) = 400
                       \<and> apiMessage (fst (createLead user leadData store))
                           = ''Duplicate lead detected'')))
       \<and> (uniqueKeys (snd (updateLead user leadId updateData store))
          \<and> map lead_id (snd (updateLead user leadId updateData store)) = map lead_id store
          \<and> (\<forall>x \<in> set store. lead_id x \<noteq> leadId \<longrightarrow>
                x \<in> set (snd (updateLead user leadId updateData store)))
          \<and> ((truthy (email updateData)
                 \<and> (\<exists>x \<in> set store. lead_id x \<noteq> leadId
                        \<and> lead_email x = setEmail (str (email updateData))))
               \<or> (truthy (phone updateData)
                 \<and> (\<exists>x \<in> set store. lead_id x \<noteq> leadId
                        \<and> lead_phone x = setPhone (str (phone updateData)))) \<longrightarrow>
               snd (updateLead user leadId updateData store) = store
               \<and> \<not> apiSuccess (fst (updateLead user leadId updateData store))
               \<and> (\<forall>l \<in> set store. lead_id l = leadId
                      \<and> (role user = ''admin''
                           \<or> String_of (assignedTo l) = String_of (uid user)) \<longrightarrow>
                    apiStatus (fst (updateLead user leadId updateData store)) = 400
                    \<and> apiMessage (fst (updateLead user leadId updateData store))
                        = ''Duplicate lead detected'')))
       \<and> (\<exists>news. snd (importFromExcel req store) = store @ news
             \<and> uniqueKeys (store @ news)
             \<and> (\<forall>d \<in> set news. lead_email d \<notin> lead_email ` set store
                                  \<and> lead_phone d \<notin> lead_phone ` set store))
       \<and> ((\<exists>x \<in> set store. lead_email x = lead_email d \<or> lead_phone x = lead_phone d) \<longrightarrow>
             (\<exists>e. saveNew m store d = Inl e)
             \<and> (validateLead (\<lambda>p. True) d = [] \<longrightarrow>
                  (\<exists>f v. saveNew m store d = Inl (DuplicateKey f v))))"
proof (intro conjI)
  show "uniqueKeys (snd (createLead user leadData store))"
    using assms by (rule createLead_uniqueKeys)
  show "\<exists>news. snd (createLead user leadData store) = store @ news"
    using assms by (rule createLead_uniqueKeys)
  show "(\<exists>x \<in> set store. lead_email x = setEmail (str (email leadData))
                           \<or> lead_phone x = setPhone (str (phone leadData))) \<longrightarrow>
               snd (createLead user leadData store) = store
               \<and> \<not> apiSuccess (fst (createLead user leadData store))
               \<and> (truthy (name leadData) \<and> truthy (email leadData) \<and> truthy (phone leadData)
                    \<longrightarrow> apiStatus (fst (createLead user leadData store)) = 400
                       \<and> apiMessage (fst (createLead user leadData store))
                           = ''Duplicate lead detected'')"
    using createLead_collision [of store leadData user] by blast
  show "uniqueKeys (snd (updateLead user leadId updateData store))"
    using assms by (rule updateLead_uniqueKeys)
  show "map lead_id (snd (updateLead user leadId updateData store)) = map lead_id store"
    using assms by (rule updateLead_uniqueKeys)
  show "\<forall>x \<in> set store. lead_id x \<noteq> leadId \<longrightarrow>
                x \<in> set (snd (updateLead user leadId updateData store))"
    using assms by (rule updateLead_uniqueKeys)
  show "(truthy (email updateData)
                 \<and> (\<exists>x \<in> set store. lead_id x \<noteq> leadId
                        \<and> lead_email x = setEmail (str (email updateData))))
               \<or> (truthy (phone updateData)
                 \<and> (\<exists>x \<in> set store. lead_id x \<noteq> leadId
                        \<and> lead_phone x = setPhone (str (phone updateData)))) \<longrightarrow>
               snd (updateLead user leadId updateData store) = store
               \<and> \<not> apiSuccess (fst (updateLead user leadId updateData store))
               \<and> (\<forall>l \<in> set store. lead_id l = leadId
                      \<and> (role user = ''admin''
                           \<or> String_of (assignedTo l) = String_of (uid user)) \<longrightarrow>
                    apiStatus (fst (updateLead user leadId updateData store)) = 400
                    \<and> apiMessage (fst (updateLead user leadId updateData store))
                        = ''Duplicate lead detected'')"
  proof
    assume c: "(truthy (email updateData)
                 \<and> (\<exists>x \<in> set store. lead_id x \<noteq> leadId
                        \<and> lead_email x = setEmail (str (email updateData))))
               \<or> (truthy (phone updateData)
                 \<and> (\<exists>x \<in> set store. lead_id x \<noteq> leadId
                        \<and> lead_phone x = setPhone (str (phone updateData))))"
    note col = updateLead_collision [OF c, of user]
    have "apiStatus (fst (updateLead user leadId updateData store)) = 400
          \<and> apiMessage (fst (updateLead user leadId updateData store))
              = ''Duplicate lead detected''"
      if l: "l \<in> set store" "lead_id l = leadId"
        "role user = ''admin'' \<or> String_of (assignedTo l) = String_of (uid user)" for l
    proof -
      from assms have "distinct (map lead_id store)" by (simp add: uniqueKeys_def)
      from find_by_id [OF this l(1)] l(2)
      have "find (\<lambda>d. lead_id d = leadId) store = Some l" by simp
      with col l(3) show ?thesis by blast
    qed
    with col show "snd (updateLead user leadId updateData store) = store
               \<and> \<not> apiSuccess (fst (updateLead user leadId updateData store))
               \<and> (\<forall>l \<in> set store. lead_id l = leadId
                      \<and> (role user = ''admin''
                           \<or> String_of (assignedTo l) = String_of (uid user)) \<longrightarrow>
                    apiStatus (fst (updateLead user leadId updateData store)) = 400
                    \<and> apiMessage (fst (updateLead user leadId updateData store))
                        = ''Duplicate lead detected'')"
      by blast
  qed
  show "\<exists>news. snd (importFromExcel req store) = store @ news
             \<and> uniqueKeys (store @ news)
             \<and> (\<forall>d \<in> set news. lead_email d \<notin> lead_email ` set store
                                  \<and> lead_phone d \<notin> lead_phone ` set store)"
    using importFromExcel_store [of req store] assms by blast
  show "(\<exists>x \<in> set store. lead_email x = lead_email d \<or> lead_phone x = lead_phone d) \<longrightarrow>
             (\<exists>e. saveNew m store d = Inl e)
             \<and> (validateLead (\<lambda>p. True) d = [] \<longrightarrow>
                  (\<exists>f v. saveNew m store d = Inl (DuplicateKey f v)))"
    using saveNew_collision [of store d m] by blast
qed

theorem C5_witness:
  "uniqueKeys [storedLead]
   \<and> snd (createLead adminUser repeatedEmailInput [storedLead]) = [storedLead]
   \<and> apiStatus (fst (createLead adminUser repeatedEmailInput [storedLead])) = 400
   \<and> apiMessage (fst (createLead adminUser repeatedEmailInput [storedLead]))
       = ''Duplicate lead detected''
   \<and> uniqueKeys (snd (importFromExcel (uploadOf mixedSheet) [storedLead]))
   \<and> uniqueKeys (snd (updateLead adminUser 1 (statusUpdate ''Contacted'') [storedLead]))"
proof -
  have u: "uniqueKeys [storedLead]" by (simp add: uniqueKeys_def)
  note inst = C5_unique_email_phone [OF u, of adminUser repeatedEmailInput 1
      "statusUpdate ''Contacted''" "uploadOf mixedSheet"]
  have hit: "\<exists>x \<in> set [storedLead]. lead_email x = setEmail (str (email repeatedEmailInput))
                                 \<or> lead_phone x = setPhone (str (phone repeatedEmailInput))"
    by code_simp
  have present: "truthy (name repeatedEmailInput) \<and> truthy (email repeatedEmailInput)
                 \<and> truthy (phone repeatedEmailInput)"
    by (simp add: repeatedEmailInput_def)
  from inst hit present
  have c: "snd (createLead adminUser repeatedEmailInput [storedLead]) = [storedLead]
       \<and> apiStatus (fst (createLead adminUser repeatedEmailInput [storedLead])) = 400
       \<and> apiMessage (fst (createLead adminUser repeatedEmailInput [storedLead]))
           = ''Duplicate lead detected''"
    by blast
  from inst have up: "uniqueKeys (snd (updateLead adminUser 1 (statusUpdate ''Contacted'')
                                          [storedLead]))"
    by blast
  from inst obtain news where "snd (importFromExcel (uploadOf mixedSheet) [storedLead])
                                 = [storedLead] @ news" "uniqueKeys ([storedLead] @ news)"
    by blast
  then have im: "uniqueKeys (snd (importFromExcel (uploadOf mixedSheet) [storedLead]))"
    by simp
  from u c im up show ?thesis by blast
qed

section \<open>The errors a row produces\<close>

lemma processLeadsG_step:
  "processLeadsG u ex vl og ((x, k) # xs) S c rows eg =
     (if nl_email x \<in> set ex
      then processLeadsG u ex vl og xs S c rows
             (eg @ [(og ! k, duplicateInDatabase (reportedRow vl x) (nl_email x))])
      else (case saveNew True S (importDoc S x u) of
              Inr (S', d) \<Rightarrow> processLeadsG u ex vl og xs S' (c @ [d]) (rows @ [og ! k]) eg
            | Inl e \<Rightarrow> processLeadsG u ex vl og xs S c rows
                        (eg @ [(og ! k, persistenceError (reportedRow vl x) e)])))"
  by (auto simp add: duplicateInDatabase_def persistenceError_def importDoc_def reportedRow_def
        split: sum.splits)

text \<open>
  Every error the loop adds is the already-exists error of a lead whose email is in
  \<^verbatim>\<open>existingEmailSet\<close>, or the error of a failed save of a lead whose email is not.
\<close>

lemma processLeadsG_errors:
  "processLeadsG u ex vl og xs S c rows eg = (S', c', rows', eg') \<Longrightarrow> z \<in> set eg' \<Longrightarrow>
   z \<in> set eg
   \<or> (\<exists>x i. (x, i) \<in> set xs
         \<and> ((nl_email x \<in> set ex
               \<and> z = (og ! i, duplicateInDatabase (reportedRow vl x) (nl_email x)))
            \<or> (nl_email x \<notin> set ex
               \<and> (\<exists>e. z = (og ! i, persistenceError (reportedRow vl x) e)))))"
proof (induction xs arbitrary: S c rows eg)
  case Nil
  then show ?case by simp
next
  case (Cons q xs)
  obtain x k where q: "q = (x, k)" by (cases q)
  show ?case
  proof (cases "nl_email x \<in> set ex")
    case True
    from Cons.prems(1) have "processLeadsG u ex vl og xs S c rows
        (eg @ [(og ! k, duplicateInDatabase (reportedRow vl x) (nl_email x))])
        = (S', c', rows', eg')"
      unfolding q by (simp only: processLeadsG_step True if_True)
    from Cons.IH [OF this Cons.prems(2)] True show ?thesis unfolding q by auto
  next
    case False
    show ?thesis
    proof (cases "saveNew True S (importDoc S x u)")
      case (Inl e)
      from Cons.prems(1) have "processLeadsG u ex vl og xs S c rows
        (eg @ [(og ! k, persistenceError (reportedRow vl x) e)]) = (S', c', rows', eg')"
        unfolding q by (simp only: processLeadsG_step False if_False Inl sum.case)
      from Cons.IH [OF this Cons.prems(2)] False show ?thesis unfolding q by auto
    next
      case (Inr r)
      obtain st d where r: "r = (st, d)" by (cases r)
      from Cons.prems(1) have "processLeadsG u ex vl og xs st (c @ [d]) (rows @ [og ! k]) eg
        = (S', c', rows', eg')"
        unfolding q by (simp only: processLeadsG_step False if_False Inr r sum.case prod.case)
      from Cons.IH [OF this Cons.prems(2)] show ?thesis unfolding q by auto
    qed
  qed
qed

lemma validation_errors:
  assumes "validateLoopG jd 0 [] [] [] = (vl, og, e1)"
  shows "z \<in> set e1 \<longleftrightarrow>
           (\<exists>k e. z = (k, e) \<and> k < length jd \<and> \<not> rowValid (jd ! k)
                  \<and> e \<in> set (rowErrors (jd ! k) (int k + 2)))"
proof -
  let ?n = "length jd"
  from assms
  have "e1 = concat (map (\<lambda>(k, r). map (Pair k) (rowErrors r (int k + 2)))
                    (filter (\<lambda>(k, r). \<not> rowValid r) (zip [0 ..< ?n] jd)))"
    by (simp add: validateLoopG_result)
  then have e1: "e1 = concat (map (\<lambda>k. map (Pair k) (rowErrors (jd ! k) (int k + 2)))
                    (filter (\<lambda>k. \<not> rowValid (jd ! k)) [0 ..< ?n]))"
    unfolding zip_upt_nth2 by (simp add: filter_map comp_def)
  show ?thesis unfolding e1 by auto
qed


text \<open>
  What a traced import records for a row whose normalized email is stored already:
  the validation errors of the row when it is invalid, one already-exists error when
  it is the first valid row with its email, one duplicate-within-file error when a
  valid row before it has the email.
\<close>

lemma importTrace_row:
  assumes v: "validateLoopG (jsonDataOf sheet) 0 [] [] [] = (vl, og, e1)"
    and p: "processLeadsG u
       (existingEmailsOf store (uniqueValidLeadsOf vl (emailMapOf vl))) vl og
       (uniqueIndexedOf vl (emailMapOf vl)) store [] []
       (e1 @ duplicateErrorsG og (emailMapOf vl)) = (S', c', rows, e3)"
    and k: "k < length (jsonDataOf sheet)"
    and e: "nl_email (normalize (jsonDataOf sheet ! k)) \<in> lead_email ` set store"
  shows "\<not> rowValid (jsonDataOf sheet ! k) \<Longrightarrow>
           {z \<in> set e3. fst z = k}
             = Pair k ` set (rowErrors (jsonDataOf sheet ! k) (int k + 2))"
    and "rowValid (jsonDataOf sheet ! k) \<Longrightarrow>
         \<forall>j < k. rowValid (jsonDataOf sheet ! j) \<longrightarrow>
                 nl_email (normalize (jsonDataOf sheet ! j))
                 \<noteq> nl_email (normalize (jsonDataOf sheet ! k)) \<Longrightarrow>
           \<exists>n. {z \<in> set e3. fst z = k}
                  = {(k, duplicateInDatabase n (nl_email (normalize (jsonDataOf sheet ! k))))}"
    and "rowValid (jsonDataOf sheet ! k) \<Longrightarrow>
         \<exists>j < k. rowValid (jsonDataOf sheet ! j)
                 \<and> nl_email (normalize (jsonDataOf sheet ! j))
                   = nl_email (normalize (jsonDataOf sheet ! k)) \<Longrightarrow>
           \<exists>n. {z \<in> set e3. fst z = k}
                  = {(k, duplicateInFile n (nl_email (normalize (jsonDataOf sheet ! k))))}"
proof -
  let ?jd = "jsonDataOf sheet"
  let ?E = "nl_email (normalize (?jd ! k))"
  let ?em = "emailMapOf vl"
  let ?ex = "existingEmailsOf store (uniqueValidLeadsOf vl ?em)"
  note ph = validation_phase [OF v]
  have len: "length vl = length og" using ph(2) by simp
  have dog: "distinct og" using ph(1) by simp
  have sog: "set og = {j. j < length ?jd \<and> rowValid (?jd ! j)}" using ph(1) by auto
  have sorted: "sorted_wrt (<) og"
    unfolding ph(1) by (intro sorted_wrt_filter) (simp add: sorted_wrt_upt)
  have valid_og: "rowValid (?jd ! (og ! i))" if "i < length og" for i
  proof -
    from that have "og ! i \<in> set og" by simp
    then show ?thesis unfolding sog by simp
  qed
  have vln: "vl ! i = normalize (?jd ! (og ! i))" if "i < length og" for i
    using that unfolding ph(2) by simp
  have sub: "set e1 \<subseteq> set e3" "set (duplicateErrorsG og ?em) \<subseteq> set e3"
    using processLeadsG_reports_existing [OF p] by auto
  have inj: "i = j" if "i < length og" "j < length og" "og ! i = og ! j" for i j
    using that dog by (simp add: nth_eq_iff_index_eq)
  \<comment> \<open>where the errors of the trace come from\<close>
  have upper: "z \<in> set e1 \<or> z \<in> set (duplicateErrorsG og ?em)
     \<or> (\<exists>i. i < length vl \<and> firstOcc vl i
            \<and> ((nl_email (vl ! i) \<in> lead_email ` set store
                  \<and> z = (og ! i, duplicateInDatabase (reportedRow vl (vl ! i))
                                   (nl_email (vl ! i))))
               \<or> (nl_email (vl ! i) \<notin> lead_email ` set store
                  \<and> (\<exists>er. z = (og ! i, persistenceError (reportedRow vl (vl ! i)) er)))))"
    if "z \<in> set e3" for z
  proof -
    from processLeadsG_errors [OF p that]
    consider "z \<in> set (e1 @ duplicateErrorsG og ?em)"
      | x i where "(x, i) \<in> set (uniqueIndexedOf vl ?em)"
          "(nl_email x \<in> set ?ex
               \<and> z = (og ! i, duplicateInDatabase (reportedRow vl x) (nl_email x)))
            \<or> (nl_email x \<notin> set ?ex
               \<and> (\<exists>er. z = (og ! i, persistenceError (reportedRow vl x) er)))"
      by blast
    then show ?thesis
    proof cases
      case 1
      then show ?thesis by auto
    next
      case 2
      from 2(1) have i: "i < length vl" "firstOcc vl i" "x = vl ! i"
        by (auto simp add: uniqueIndexedOf_firstOcc)
      then have "x \<in> set (uniqueValidLeadsOf vl ?em)"
        unfolding uniqueValidLeadsOf_firstOcc by auto
      then have "nl_email x \<in> set ?ex \<longleftrightarrow> nl_email x \<in> lead_email ` set store"
        by (auto simp add: existingEmailsOf_mem)
      with 2(2) i show ?thesis by blast
    qed
  qed
  \<comment> \<open>a valid row and its place in \<open>validLeads\<close>\<close>
  have place: "\<exists>i < length vl. og ! i = k \<and> vl ! i = normalize (?jd ! k)"
    if "rowValid (?jd ! k)"
  proof -
    from that k have "k \<in> set og" unfolding sog by simp
    then obtain i where i: "i < length og" "og ! i = k" by (auto simp add: in_set_conv_nth)
    with vln [of i] len show ?thesis by auto
  qed
  have first_iff: "firstOcc vl i \<longleftrightarrow>
      (\<forall>j < k. rowValid (?jd ! j) \<longrightarrow> nl_email (normalize (?jd ! j)) \<noteq> ?E)"
    if i: "i < length vl" "og ! i = k" for i
  proof
    assume f: "firstOcc vl i"
    show "\<forall>j < k. rowValid (?jd ! j) \<longrightarrow> nl_email (normalize (?jd ! j)) \<noteq> ?E"
    proof (intro allI impI)
      fix j assume j: "j < k" "rowValid (?jd ! j)"
      with k have "j \<in> set og" unfolding sog by simp
      then obtain j' where j': "j' < length og" "og ! j' = j" by (auto simp add: in_set_conv_nth)
      have "j' < i"
      proof (rule ccontr)
        assume "\<not> j' < i"
        then consider "i = j'" | "i < j'" by linarith
        then show False
        proof cases
          case 1
          with j'(2) i(2) j(1) show False by simp
        next
          case 2
          from sorted_wrt_nth_less [OF sorted 2 j'(1)] j'(2) i(2) j(1) show False by simp
        qed
      qed
      with f have "nl_email (vl ! j') \<noteq> nl_email (vl ! i)" by (simp add: firstOcc_def)
      with vln [OF j'(1)] vln [of i] i len j'(2)
      show "nl_email (normalize (?jd ! j)) \<noteq> ?E" by simp
    qed
  next
    assume early: "\<forall>j < k. rowValid (?jd ! j) \<longrightarrow> nl_email (normalize (?jd ! j)) \<noteq> ?E"
    show "firstOcc vl i"
      unfolding firstOcc_def
    proof (intro allI impI)
      fix j assume j: "j < i"
      with i(1) len have jl: "j < length og" by simp
      from sorted_wrt_nth_less [OF sorted j] i(1) len i(2) have lt: "og ! j < k" by simp
      from early lt valid_og [OF jl] have "nl_email (normalize (?jd ! (og ! j))) \<noteq> ?E" by blast
      with vln [OF jl] vln [of i] i len show "nl_email (vl ! j) \<noteq> nl_email (vl ! i)" by simp
    qed
  qed
  \<comment> \<open>an invalid row\<close>
  show "{z \<in> set e3. fst z = k} = Pair k ` set (rowErrors (?jd ! k) (int k + 2))"
    if inv: "\<not> rowValid (?jd ! k)"
  proof (intro set_eqI iffI)
    fix z assume "z \<in> {z \<in> set e3. fst z = k}"
    then have z: "z \<in> set e3" "fst z = k" by auto
    from upper [OF z(1)] show "z \<in> Pair k ` set (rowErrors (?jd ! k) (int k + 2))"
    proof (elim disjE exE conjE)
      assume "z \<in> set e1"
      with z(2) show ?thesis unfolding validation_errors [OF v] by auto
    next
      assume "z \<in> set (duplicateErrorsG og ?em)"
      then obtain i where "i < length vl" "z = (og ! i, duplicateInFile (int i + 2) (nl_email (vl ! i)))"
        unfolding duplicateErrorsG_mem by blast
      with z(2) valid_og [of i] len inv show ?thesis by simp
    next
      fix i assume "i < length vl"
        "z = (og ! i, duplicateInDatabase (reportedRow vl (vl ! i)) (nl_email (vl ! i)))"
      with z(2) valid_og [of i] len inv show ?thesis by simp
    next
      fix i er assume "i < length vl"
        "z = (og ! i, persistenceError (reportedRow vl (vl ! i)) er)"
      with z(2) valid_og [of i] len inv show ?thesis by simp
    qed
  next
    fix z assume "z \<in> Pair k ` set (rowErrors (?jd ! k) (int k + 2))"
    then obtain er where er: "z = (k, er)" "er \<in> set (rowErrors (?jd ! k) (int k + 2))" by blast
    with k inv have "z \<in> set e1" unfolding validation_errors [OF v] by blast
    with sub(1) er(1) show "z \<in> {z \<in> set e3. fst z = k}" by auto
  qed
  \<comment> \<open>the first valid row with the email\<close>
  show "\<exists>n. {z \<in> set e3. fst z = k} = {(k, duplicateInDatabase n ?E)}"
    if valid: "rowValid (?jd ! k)"
      and early: "\<forall>j < k. rowValid (?jd ! j) \<longrightarrow> nl_email (normalize (?jd ! j)) \<noteq> ?E"
  proof -
    from place [OF valid] obtain i where i: "i < length vl" "og ! i = k"
      "vl ! i = normalize (?jd ! k)" by blast
    from first_iff [OF i(1,2)] early have f: "firstOcc vl i" by blast
    let ?z = "(k, duplicateInDatabase (reportedRow vl (vl ! i)) ?E)"
    from importTrace_existing [OF v p i(1) f] e i(2,3) have mem: "?z \<in> set e3" by simp
    have "{z \<in> set e3. fst z = k} = {?z}"
    proof (intro set_eqI iffI)
      fix z assume "z \<in> {z \<in> set e3. fst z = k}"
      then have z: "z \<in> set e3" "fst z = k" by auto
      from upper [OF z(1)] have "z = ?z"
      proof (elim disjE exE conjE)
        assume "z \<in> set e1"
        with z(2) valid show ?thesis unfolding validation_errors [OF v] by auto
      next
        assume "z \<in> set (duplicateErrorsG og ?em)"
        then obtain j where j: "j < length vl" "\<not> firstOcc vl j"
          "z = (og ! j, duplicateInFile (int j + 2) (nl_email (vl ! j)))"
          unfolding duplicateErrorsG_mem by blast
        with z(2) i(2) have "og ! j = og ! i" by simp
        with inj [of j i] j(1) i(1) len have "j = i" by simp
        with j(2) f show ?thesis by simp
      next
        fix j assume j: "j < length vl"
          "z = (og ! j, duplicateInDatabase (reportedRow vl (vl ! j)) (nl_email (vl ! j)))"
        with z(2) i(2) have "og ! j = og ! i" by simp
        with inj [of j i] j(1) i(1) len have "j = i" by simp
        with j(2) i(2,3) show ?thesis by simp
      next
        fix j er assume j: "j < length vl" "nl_email (vl ! j) \<notin> lead_email ` set store"
          "z = (og ! j, persistenceError (reportedRow vl (vl ! j)) er)"
        with z(2) i(2) have "og ! j = og ! i" by simp
        with inj [of j i] j(1) i(1) len have "j = i" by simp
        with j(2) i(3) e show ?thesis by simp
      qed
      then show "z \<in> {?z}" by simp
    next
      fix z assume "z \<in> {?z}"
      with mem show "z \<in> {z \<in> set e3. fst z = k}" by simp
    qed
    then show ?thesis by blast
  qed
  \<comment> \<open>a later valid row with the email\<close>
  show "\<exists>n. {z \<in> set e3. fst z = k} = {(k, duplicateInFile n ?E)}"
    if valid: "rowValid (?jd ! k)"
      and late: "\<exists>j < k. rowValid (?jd ! j) \<and> nl_email (normalize (?jd ! j)) = ?E"
  proof -
    from place [OF valid] obtain i where i: "i < length vl" "og ! i = k"
      "vl ! i = normalize (?jd ! k)" by blast
    from first_iff [OF i(1,2)] late have f: "\<not> firstOcc vl i" by blast
    let ?z = "(k, duplicateInFile (int i + 2) ?E)"
    from i f have "?z \<in> set (duplicateErrorsG og ?em)"
      unfolding duplicateErrorsG_mem by force
    with sub(2) have mem: "?z \<in> set e3" by blast
    have "{z \<in> set e3. fst z = k} = {?z}"
    proof (intro set_eqI iffI)
      fix z assume "z \<in> {z \<in> set e3. fst z = k}"
      then have z: "z \<in> set e3" "fst z = k" by auto
      from upper [OF z(1)] have "z = ?z"
      proof (elim disjE exE conjE)
        assume "z \<in> set e1"
        with z(2) valid show ?thesis unfolding validation_errors [OF v] by auto
      next
        assume "z \<in> set (duplicateErrorsG og ?em)"
        then obtain j where j: "j < length vl"
          "z = (og ! j, duplicateInFile (int j + 2) (nl_email (vl ! j)))"
          unfolding duplicateErrorsG_mem by blast
        with z(2) i(2) have "og ! j = og ! i" by simp
        with inj [of j i] j(1) i(1) len have "j = i" by simp
        with j(2) i(2,3) show ?thesis by simp
      next
        fix j assume j: "j < length vl" "firstOcc vl j"
          "z = (og ! j, duplicateInDatabase (reportedRow vl (vl ! j)) (nl_email (vl ! j)))"
        with z(2) i(2) have "og ! j = og ! i" by simp
        with inj [of j i] j(1) i(1) len have "j = i" by simp
        with j(2) f show ?thesis by simp
      next
        fix j er assume j: "j < length vl" "firstOcc vl j"
          "z = (og ! j, persistenceError (reportedRow vl (vl ! j)) er)"
        with z(2) i(2) have "og ! j = og ! i" by simp
        with inj [of j i] j(1) i(1) len have "j = i" by simp
        with j(2) f show ?thesis by simp
      qed
      then show "z \<in> {?z}" by simp
    next
      fix z assume "z \<in> {?z}"
      with mem show "z \<in> {z \<in> set e3. fst z = k}" by simp
    qed
    then show ?thesis by blast
  qed
qed


text \<open>
  C8, amended. Take a row of \<^verbatim>\<open>jsonData\<close> whose normalized email is the email of a
  stored lead. Whether or not the import completes, the collection only grows at its
  end, so the stored leads are unchanged, and no added lead has that email: no lead is
  created from the row. When the import completes (status 200), the added leads are
  the reported ones, the row is not among the rows a lead was created from, and the
  errors recorded for the row are: its validation errors, and nothing else, when it
  fails validation; exactly the already-exists error for its email when it is valid
  and no valid row before it has the email; exactly the duplicate-within-file error
  for its email when it is valid and a valid row before it has the email. Whenever the
  row is valid, the report contains the already-exists error for the email.
\<close>

theorem C8_existing_email_row:
  assumes run: "importFromExcel req store = (res, store')"
    and k: "k < length (jsonDataOf (firstSheet req))"
    and e: "nl_email (normalize (jsonDataOf (firstSheet req) ! k)) \<in> lead_email ` set store"
  shows "(\<exists>news. store' = store @ news
            \<and> (\<forall>d \<in> set news.
                  lead_email d \<noteq> nl_email (normalize (jsonDataOf (firstSheet req) ! k))))
       \<and> (httpStatus res = 200 \<longrightarrow>
            store' = store @ leads (data res)
            \<and> (\<forall>d \<in> set (leads (data res)).
                  lead_email d \<noteq> nl_email (normalize (jsonDataOf (firstSheet req) ! k)))
            \<and> k \<notin> set (fst (importTrace req (firstSheet req) store))
            \<and> map snd (snd (importTrace req (firstSheet req) store)) = errors (data res)
            \<and> (\<not> rowValid (jsonDataOf (firstSheet req) ! k) \<longrightarrow>
                 rowErrors (jsonDataOf (firstSheet req) ! k) (int k + 2) \<noteq> []
                 \<and> {z \<in> set (snd (importTrace req (firstSheet req) store)). fst z = k}
                   = Pair k ` set (rowErrors (jsonDataOf (firstSheet req) ! k) (int k + 2)))
            \<and> (rowValid (jsonDataOf (firstSheet req) ! k)
                 \<and> (\<forall>j < k. rowValid (jsonDataOf (firstSheet req) ! j) \<longrightarrow>
                        nl_email (normalize (jsonDataOf (firstSheet req) ! j))
                        \<noteq> nl_email (normalize (jsonDataOf (firstSheet req) ! k))) \<longrightarrow>
                 (\<exists>n. {z \<in> set (snd (importTrace req (firstSheet req) store)). fst z = k}
                        = {(k, duplicateInDatabase n
                                 (nl_email (normalize (jsonDataOf (firstSheet req) ! k))))}))
            \<and> (rowValid (jsonDataOf (firstSheet req) ! k)
                 \<and> (\<exists>j < k. rowValid (jsonDataOf (firstSheet req) ! j)
                        \<and> nl_email (normalize (jsonDataOf (firstSheet req) ! j))
                          = nl_email (normalize (jsonDataOf (firstSheet req) ! k))) \<longrightarrow>
                 (\<exists>n. {z \<in> set (snd (importTrace req (firstSheet req) store)). fst z = k}
                        = {(k, duplicateInFile n
                                 (nl_email (normalize (jsonDataOf (firstSheet req) ! k))))}))
            \<and> (rowValid (jsonDataOf (firstSheet req) ! k) \<longrightarrow>
                 (\<exists>n. duplicateInDatabase n
                         (nl_email (normalize (jsonDataOf (firstSheet req) ! k)))
                       \<in> set (errors (data res)))))"
proof (intro conjI impI)
  let ?sheet = "firstSheet req"
  let ?jd = "jsonDataOf ?sheet"
  let ?E = "nl_email (normalize (?jd ! k))"
  from importFromExcel_store [of req store] run obtain news where
    news: "store' = store @ news" "\<forall>d \<in> set news. lead_email d \<notin> lead_email ` set store"
    by auto
  from news(2) e have "\<forall>d \<in> set news. lead_email d \<noteq> ?E" by metis
  with news(1) show "\<exists>news. store' = store @ news \<and> (\<forall>d \<in> set news. lead_email d \<noteq> ?E)"
    by blast
  assume ok: "httpStatus res = 200"
  have sheet: "importSheet req ?sheet store = (res, store')"
    using run
  proof (cases rule: importFromExcel_cases)
    case rejected
    with ok show ?thesis by simp
  next
    case ran
    then show ?thesis .
  qed
  note tr = importSheet_trace [OF sheet ok]
  obtain vl og e1 S' c' rows e3 where
    v: "validateLoopG ?jd 0 [] [] [] = (vl, og, e1)"
    and p: "processLeadsG (userId req)
       (existingEmailsOf store (uniqueValidLeadsOf vl (emailMapOf vl))) vl og
       (uniqueIndexedOf vl (emailMapOf vl)) store [] []
       (e1 @ duplicateErrorsG og (emailMapOf vl)) = (S', c', rows, e3)"
    and it: "importTrace req ?sheet store = (rows, e3)"
    by (rule importTrace_parts)
  note ph = validation_phase [OF v]
  note part = importTrace_partition [OF it]
  note rw = importTrace_row [OF v p k e]
  have len: "length vl = length og" using ph(2) by simp
  have errs: "set (errors (data res)) = snd ` set e3"
    using tr(1) it by (metis set_map snd_conv)
  have place: "\<exists>i < length vl. og ! i = k \<and> vl ! i = normalize (?jd ! k)"
    if "rowValid (?jd ! k)"
  proof -
    from that k have "k \<in> set og" unfolding ph(1) by simp
    then obtain i where i: "i < length og" "og ! i = k" by (auto simp add: in_set_conv_nth)
    then have "vl ! i = normalize (?jd ! k)" unfolding ph(2) by simp
    with i len show ?thesis by auto
  qed
  show stored: "store' = store @ leads (data res)" by (rule tr(6))
  from stored news(1) have "leads (data res) = news" by simp
  with \<open>\<forall>d \<in> set news. lead_email d \<noteq> ?E\<close>
  show "\<forall>d \<in> set (leads (data res)). lead_email d \<noteq> ?E" by simp
  show "map snd (snd (importTrace req ?sheet store)) = errors (data res)" by (rule tr(1))
  have nonempty: "{z \<in> set e3. fst z = k} \<noteq> {}"
  proof (cases "rowValid (?jd ! k)")
    case False
    then have "rowErrors (?jd ! k) (int k + 2) \<noteq> []" by (simp add: rowErrors_Nil)
    with rw(1) [OF False] show ?thesis by simp
  next
    case True
    show ?thesis
    proof (cases "\<forall>j < k. rowValid (?jd ! j) \<longrightarrow> nl_email (normalize (?jd ! j)) \<noteq> ?E")
      case True
      from rw(2) [OF \<open>rowValid (?jd ! k)\<close> True] show ?thesis by auto
    next
      case False
      then have "\<exists>j < k. rowValid (?jd ! j) \<and> nl_email (normalize (?jd ! j)) = ?E" by blast
      from rw(3) [OF True this] show ?thesis by auto
    qed
  qed
  then obtain z where "z \<in> set e3" "fst z = k" by blast
  then have "k \<in> fst ` set e3" by force
  with part(3) it show "k \<notin> set (fst (importTrace req ?sheet store))" by auto
  show "rowErrors (?jd ! k) (int k + 2) \<noteq> []" if "\<not> rowValid (?jd ! k)"
    using that by (simp add: rowErrors_Nil)
  show "{z \<in> set (snd (importTrace req ?sheet store)). fst z = k}
          = Pair k ` set (rowErrors (?jd ! k) (int k + 2))" if "\<not> rowValid (?jd ! k)"
    using rw(1) [OF that] unfolding it by simp
  show "\<exists>n. {z \<in> set (snd (importTrace req ?sheet store)). fst z = k}
               = {(k, duplicateInDatabase n ?E)}"
    if "rowValid (?jd ! k)
        \<and> (\<forall>j < k. rowValid (?jd ! j) \<longrightarrow> nl_email (normalize (?jd ! j)) \<noteq> ?E)"
    using rw(2) that unfolding it by simp
  show "\<exists>n. {z \<in> set (snd (importTrace req ?sheet store)). fst z = k}
               = {(k, duplicateInFile n ?E)}"
    if "rowValid (?jd ! k)
        \<and> (\<exists>j < k. rowValid (?jd ! j) \<and> nl_email (normalize (?jd ! j)) = ?E)"
    using rw(3) that unfolding it by simp
  show "\<exists>n. duplicateInDatabase n ?E \<in> set (errors (data res))" if "rowValid (?jd ! k)"
  proof -
    from place [OF that] obtain i where i: "i < length vl" "vl ! i = normalize (?jd ! k)"
      by blast
    from first_occurrence_exists [OF i(1)] obtain i0 where
      i0: "i0 \<le> i" "nl_email (vl ! i0) = nl_email (vl ! i)" "firstOcc vl i0" by blast
    from i0(1) i(1) have "i0 < length vl" by simp
    from importTrace_existing [OF v p this i0(3)] e i0(2) i(2)
    have "(og ! i0, duplicateInDatabase (reportedRow vl (vl ! i0)) ?E) \<in> set e3" by simp
    then have "duplicateInDatabase (reportedRow vl (vl ! i0)) ?E \<in> snd ` set e3" by force
    with errs show ?thesis by blast
  qed
qed


theorem C8_witness:
  "snd (importFromExcel (uploadOf storedEmailSheet) [storedLead])
     = [storedLead]
       @ leads (data (fst (importFromExcel (uploadOf storedEmailSheet) [storedLead])))
   \<and> {z \<in> set (snd (importTrace (uploadOf storedEmailSheet) storedEmailSheet [storedLead])).
        fst z = 0}
     = Pair 0 ` set (rowErrors (jsonDataOf storedEmailSheet ! 0) 2)
   \<and> (\<exists>n. {z \<in> set (snd (importTrace (uploadOf storedEmailSheet) storedEmailSheet
                               [storedLead])). fst z = 1}
          = {(1, duplicateInDatabase n ''ann@x.com'')})
   \<and> (\<exists>n. {z \<in> set (snd (importTrace (uploadOf storedEmailSheet) storedEmailSheet
                               [storedLead])). fst z = 2}
          = {(2, duplicateInFile n ''ann@x.com'')})"
proof -
  let ?req = "uploadOf storedEmailSheet"
  let ?out = "importFromExcel ?req [storedLead]"
  let ?jd = "jsonDataOf storedEmailSheet"
  let ?tr = "importTrace ?req storedEmailSheet [storedLead]"
  have fs: "firstSheet ?req = storedEmailSheet" by (simp add: firstSheet_def uploadOf_def)
  have run: "?out = (fst ?out, snd ?out)" by simp
  have ok: "httpStatus (fst ?out) = 200" by code_simp
  have len: "length ?jd = 3" by code_simp
  have em: "nl_email (normalize (?jd ! 0)) = ''ann@x.com''"
    "nl_email (normalize (?jd ! 1)) = ''ann@x.com''"
    "nl_email (normalize (?jd ! 2)) = ''ann@x.com''" by code_simp+
  have st: "''ann@x.com'' \<in> lead_email ` set [storedLead]" by (simp add: storedLead_def)
  have v0: "\<not> rowValid (?jd ! 0)" by code_simp
  have v1: "rowValid (?jd ! 1)" by code_simp
  have v2: "rowValid (?jd ! 2)" by code_simp
  have early: "\<forall>j < 1. rowValid (?jd ! j) \<longrightarrow>
      nl_email (normalize (?jd ! j)) \<noteq> nl_email (normalize (?jd ! 1))"
    using v0 by simp
  have late: "\<exists>j < 2. rowValid (?jd ! j)
      \<and> nl_email (normalize (?jd ! j)) = nl_email (normalize (?jd ! 2))"
    using v1 em by (intro exI [of _ 1]) simp
  have k0: "0 < length ?jd" and k1: "1 < length ?jd" and k2: "2 < length ?jd"
    using len by simp_all
  have e0: "nl_email (normalize (?jd ! 0)) \<in> lead_email ` set [storedLead]"
    and e1: "nl_email (normalize (?jd ! 1)) \<in> lead_email ` set [storedLead]"
    and e2: "nl_email (normalize (?jd ! 2)) \<in> lead_email ` set [storedLead]"
    unfolding em by (rule st)+
  note inst0 = C8_existing_email_row [OF run, unfolded fs, OF k0 e0,
      THEN conjunct2, THEN mp, OF ok]
  note inst1 = C8_existing_email_row [OF run, unfolded fs, OF k1 e1,
      THEN conjunct2, THEN mp, OF ok]
  note inst2 = C8_existing_email_row [OF run, unfolded fs, OF k2 e2,
      THEN conjunct2, THEN mp, OF ok]
  note a = inst0 [THEN conjunct1]
  note b = inst0 [THEN conjunct2, THEN conjunct2, THEN conjunct2, THEN conjunct2,
      THEN conjunct1, THEN mp, OF v0, THEN conjunct2, unfolded of_nat_0 add_0]
  note c = inst1 [THEN conjunct2, THEN conjunct2, THEN conjunct2, THEN conjunct2,
      THEN conjunct2, THEN conjunct1, THEN mp, OF conjI [OF v1 early], unfolded em]
  note d = inst2 [THEN conjunct2, THEN conjunct2, THEN conjunct2, THEN conjunct2,
      THEN conjunct2, THEN conjunct2, THEN conjunct1, THEN mp, OF conjI [OF v2 late],
      unfolded em]
  from a b c d show ?thesis by (intro conjI)
qed

theorem C8_counterexample:
  "map (\<lambda>r. nl_email (normalize r)) (jsonDataOf storedEmailSheet)
     = [''ann@x.com'', ''ann@x.com'', ''ann@x.com'']
   \<and> lead_email storedLead = ''ann@x.com''
   \<and> snd (importTrace (uploadOf storedEmailSheet) storedEmailSheet [storedLead])
     = [(0, \<lparr>row = 2, field = ''phone'', message = ''Phone is required''\<rparr>),
        (2, duplicateInFile 3 ''ann@x.com''),
        (1, duplicateInDatabase 2 ''ann@x.com'')]
   \<and> errors (data (fst (importFromExcel (uploadOf storedEmailSheet) [storedLead])))
     = [\<lparr>row = 2, field = ''phone'', message = ''Phone is required''\<rparr>,
        duplicateInFile 3 ''ann@x.com'', duplicateInDatabase 2 ''ann@x.com'']"
  by code_simp

section \<open>Importing the same file twice\<close>




















end
